theory Spec2Isabelle
  imports Complex_Main
begin

section \<open>The gateway rate limiter (sockets/rate\_limiter.py)\<close>

text \<open>
  \<^verbatim>\<open>GatewayRatelimiter\<close> keeps a token count and the start of the current window.
  \<^verbatim>\<open>max\<close> and \<^verbatim>\<open>remaining\<close> are Python integers; \<^verbatim>\<open>window\<close>, \<^verbatim>\<open>per\<close> and the
  clock \<^verbatim>\<open>time.time()\<close> are numbers of seconds, modelled as reals (exact arithmetic).
  Every function that reads the clock takes the reading \<open>current\<close> as an argument.
  The field \<^verbatim>\<open>max\<close> is named \<open>max_count\<close> here (the constructor calls it \<^verbatim>\<open>count\<close>).
\<close>

record GatewayRatelimiter =
  max_count :: int
  remaining :: int
  window :: real
  per :: real

definition GatewayRatelimiter_init :: "int \<Rightarrow> real \<Rightarrow> GatewayRatelimiter" where
  "GatewayRatelimiter_init count p =
     \<lparr>max_count = count, remaining = count, window = 0, per = p\<rparr>"


text \<open>
  \<^verbatim>\<open>get_delay\<close>, statement by statement: \<open>rl1\<close> is the limiter after the first
  \<^verbatim>\<open>if\<close>, \<open>rl2\<close> after the second, \<open>rl3\<close> after the decrement and \<open>rl4\<close> after the
  last \<^verbatim>\<open>if\<close>. The result is the returned delay and the limiter as the call leaves it.
\<close>

definition get_delay :: "real \<Rightarrow> GatewayRatelimiter \<Rightarrow> real \<times> GatewayRatelimiter" where
  "get_delay current rl =
     (let rl1 = (if current > window rl + per rl then rl\<lparr>remaining := max_count rl\<rparr> else rl);
          rl2 = (if remaining rl1 = max_count rl1 then rl1\<lparr>window := current\<rparr> else rl1)
      in if remaining rl2 = 0 then (per rl2 - (current - window rl2), rl2)
         else
           (let rl3 = rl2\<lparr>remaining := remaining rl2 - 1\<rparr>;
                rl4 = (if remaining rl3 = 0 then rl3\<lparr>window := current\<rparr> else rl3)
            in (0, rl4)))"

text \<open>
  \<^verbatim>\<open>block\<close> takes the lock, calls \<^verbatim>\<open>get_delay\<close> and sleeps for the delay when it is
  not zero (\<^verbatim>\<open>if delta:\<close>). The result is the time slept, if any, and the limiter.
\<close>

definition block :: "real \<Rightarrow> GatewayRatelimiter \<Rightarrow> real option \<times> GatewayRatelimiter" where
  "block current rl =
     (let (delta, rl') = get_delay current rl
      in (if delta \<noteq> 0 then Some delta else None, rl'))"

text \<open>The three operations of the class, each with the clock reading it sees.\<close>

datatype rl_op = Is_ratelimited real | Get_delay real | Block real

fun rl_step :: "GatewayRatelimiter \<Rightarrow> rl_op \<Rightarrow> GatewayRatelimiter" where
  "rl_step rl (Is_ratelimited t) = rl"
| "rl_step rl (Get_delay t) = snd (get_delay t rl)"
| "rl_step rl (Block t) = snd (block t rl)"

definition rl_run :: "GatewayRatelimiter \<Rightarrow> rl_op list \<Rightarrow> GatewayRatelimiter" where
  "rl_run rl ops = foldl rl_step rl ops"





section \<open>Values, exceptions and futures\<close>

text \<open>
  Decoded frames are JSON values (what \<^verbatim>\<open>orjson.loads\<close> returns): a dict is an
  association list, looked up with \<open>map_of\<close>.
\<close>

datatype json =
    JNull
  | JBool bool
  | JInt int
  | JFloat real
  | JStr string
  | JArr "json list"
  | JObj "(string \<times> json) list"

text \<open>
  The exceptions the modelled code can raise or meet. \<open>Raised s\<close> stands for any other
  instance of \<^verbatim>\<open>Exception\<close> raised by a callback (a predicate, a result function, a
  parser), and \<open>BaseException s\<close> for an exception that is no instance of
  \<^verbatim>\<open>Exception\<close> (\<^verbatim>\<open>KeyboardInterrupt\<close>, \<^verbatim>\<open>SystemExit\<close>,
  \<^verbatim>\<open>asyncio.CancelledError\<close>): \<^verbatim>\<open>except Exception\<close> does not catch it.
\<close>

datatype exc =
    JSONDecodeError
  | KeyError string
  | KeyError_int nat
  | IndexError
  | ValueError
  | TypeError
  | AttributeError
  | RuntimeError
  | InvalidStateError
  | StopIteration
  | TimeoutError
  | WebSocketClosure
  | ReconnectWebSocket
  | ConnectionClosed "int option"
  | Raised string
  | BaseException string

fun is_Exception :: "exc \<Rightarrow> bool" where
  "is_Exception (BaseException s) = False"
| "is_Exception e = True"

text \<open>
  An \<^verbatim>\<open>asyncio.Future\<close>: pending, cancelled, or done with a result or an exception.
  \<^verbatim>\<open>set_result\<close> and \<^verbatim>\<open>set_exception\<close> raise \<^verbatim>\<open>InvalidStateError\<close> on a future
  that is not pending. On a pending future \<^verbatim>\<open>set_exception\<close> refuses a
  \<^verbatim>\<open>StopIteration\<close>: it raises \<^verbatim>\<open>TypeError\<close> and leaves the future pending (as the
  asyncio of Python 3.11 does). \<^verbatim>\<open>cancel\<close> changes a pending future only. The futures of the
  event loop are a store indexed by identity; \<^verbatim>\<open>loop.create_future()\<close> takes the next
  unused identity.
\<close>

datatype 'v future_state = Pending | Cancelled | Result 'v | Exception exc

type_synonym 'v futures = "nat \<Rightarrow> 'v future_state"

definition set_result :: "nat \<Rightarrow> 'v \<Rightarrow> 'v futures \<Rightarrow> exc + 'v futures" where
  "set_result f v fs = (if fs f = Pending then Inr (fs(f := Result v)) else Inl InvalidStateError)"

definition set_exception :: "nat \<Rightarrow> exc \<Rightarrow> 'v futures \<Rightarrow> exc + 'v futures" where
  "set_exception f e fs =
     (if fs f \<noteq> Pending then Inl InvalidStateError
      else if e = StopIteration then Inl TypeError
      else Inr (fs(f := Exception e)))"

section \<open>The websocket base class (sockets/base\_gateway.py)\<close>

text \<open>
  \<^verbatim>\<open>EventListener = namedtuple('EventListener', 'predicate event result future')\<close>.
  A predicate and a result function are callables of the caller: applied to the data they
  return a value or raise.
\<close>

record 'v EventListener =
  predicate :: "'v \<Rightarrow> exc + bool"
  event :: string
  result :: "('v \<Rightarrow> exc + 'v) option"
  future :: nat

text \<open>
  The keep-alive thread object (sockets/keep\_alive.py). \<^verbatim>\<open>latency\<close> and \<^verbatim>\<open>ack\<close>
  play no part in what follows and are left out.
\<close>

record KeepAliveHandler =
  interval :: "real option"
  stop_ev :: bool
  last_ack :: real
  last_send :: real
  last_recv :: real
  heartbeat_timeout :: real

definition stop :: "KeepAliveHandler \<Rightarrow> KeepAliveHandler" where
  "stop h = h\<lparr>stop_ev := True\<rparr>"

definition tick :: "real \<Rightarrow> KeepAliveHandler \<Rightarrow> KeepAliveHandler" where
  "tick pc h = h\<lparr>last_recv := pc\<rparr>"

text \<open>
  What the socket, the limiter and \<^verbatim>\<open>self.dispatch\<close> are asked to do, in order:
  \<open>Rate_limited slept\<close> is a call of \<^verbatim>\<open>rate_limiter.block()\<close> with the time it slept,
  if any; the others are \<^verbatim>\<open>self.dispatch(name, data)\<close>, \<^verbatim>\<open>socket.send_str\<close>,
  \<^verbatim>\<open>socket.send_json\<close> and \<^verbatim>\<open>socket.close\<close>.
\<close>

datatype io_event =
    Rate_limited "real option"
  | Dispatch string string
  | Send_str string
  | Send_json json
  | Socket_close int

text \<open>
  The state of a \<^verbatim>\<open>_BaseWebSocket\<close> and of what it refers to:
  \<^item> \<open>socket_closed\<close>, \<open>socket_close_code\<close>: \<^verbatim>\<open>socket.closed\<close> and
    \<^verbatim>\<open>socket.close_code\<close>;
  \<^item> \<open>keep_alive_thread\<close>: the \<^verbatim>\<open>KeepAliveHandler\<close> object made for this socket, if
    any, and \<open>keep_alive\<close>: whether \<^verbatim>\<open>self._keep_alive\<close> refers to it (else it is
    \<^verbatim>\<open>None\<close>); the thread object lives on when the socket drops its reference;
  \<^item> \<open>parsers\<close>: the handlers by event name, each returning or raising, and \<open>handled\<close>:
    the handler calls made so far (event name and argument);
  \<^item> \<open>dispatch_listeners\<close>, and \<open>futures\<close>, \<open>next_future\<close>: the loop's futures;
  \<^item> \<open>close_code\<close>: \<^verbatim>\<open>self._close_code\<close>; \<open>rate_limiter\<close>: \<^verbatim>\<open>self.rate_limiter\<close>;
  \<^item> \<open>counter\<close>: \<^verbatim>\<open>self._counter\<close> of the Binance socket;
  \<^item> \<open>io\<close>: the calls made on the socket, the limiter and \<^verbatim>\<open>self.dispatch\<close>.
\<close>

record 'v ws =
  socket_closed :: bool
  socket_close_code :: "int option"
  keep_alive_thread :: "KeepAliveHandler option"
  keep_alive :: bool
  parsers :: "string \<rightharpoonup> (json \<Rightarrow> exc option)"
  handled :: "(string \<times> json) list"
  dispatch_listeners :: "'v EventListener list"
  futures :: "'v futures"
  next_future :: nat
  close_code :: "int option"
  rate_limiter :: "GatewayRatelimiter option"
  counter :: int
  io :: "io_event list"

definition wait_for ::
  "string \<Rightarrow> ('v \<Rightarrow> exc + bool) \<Rightarrow> ('v \<Rightarrow> exc + 'v) option \<Rightarrow> 'v ws \<Rightarrow> nat \<times> 'v ws" where
  "wait_for ev p res s =
     (let f = next_future s;
          entry = \<lparr>predicate = p, event = ev, result = res, future = f\<rparr>
      in (f, s\<lparr>futures := (futures s)(f := Pending), next_future := Suc f,
               dispatch_listeners := dispatch_listeners s @ [entry]\<rparr>))"

text \<open>The caller of \<^verbatim>\<open>wait_for\<close> may cancel the future it was given.\<close>

definition cancel :: "nat \<Rightarrow> 'v ws \<Rightarrow> 'v ws" where
  "cancel f s =
     s\<lparr>futures := (futures s)(f := (if futures s f = Pending then Cancelled else futures s f))\<rparr>"

text \<open>\<^verbatim>\<open>ret = data\<close> if \<^verbatim>\<open>entry.result is None\<close>, else \<^verbatim>\<open>entry.result(data)\<close>.\<close>

definition apply_result :: "('v \<Rightarrow> exc + 'v) option \<Rightarrow> 'v \<Rightarrow> exc + 'v" where
  "apply_result res d = (case res of None \<Rightarrow> Inr d | Some g \<Rightarrow> g d)"

text \<open>
  The first loop of \<^verbatim>\<open>_remove_dispatched_listeners\<close>, over
  \<^verbatim>\<open>enumerate(self._dispatch_listeners)\<close>: it returns the exception that left the loop,
  if any, the list \<^verbatim>\<open>removed\<close> and the futures. Only the predicate call is inside the
  \<^verbatim>\<open>try\<close>, whose clause is \<^verbatim>\<open>except Exception\<close>; an exception of the result function or of \<^verbatim>\<open>set_result\<close> and
  \<^verbatim>\<open>set_exception\<close> (which is called in the \<^verbatim>\<open>except\<close> clause) leaves the method.
\<close>

fun dispatch_loop ::
  "string \<Rightarrow> 'v \<Rightarrow> (nat \<times> 'v EventListener) list \<Rightarrow> nat list \<Rightarrow> 'v futures
     \<Rightarrow> exc option \<times> nat list \<times> 'v futures" where
  "dispatch_loop ev d [] removed fs = (None, removed, fs)"
| "dispatch_loop ev d ((index, entry) # rest) removed fs =
     (if event entry \<noteq> ev then dispatch_loop ev d rest removed fs
      else if fs (future entry) = Cancelled then dispatch_loop ev d rest (removed @ [index]) fs
      else
        (case predicate entry d of
           Inl x \<Rightarrow>
             if is_Exception x then
               (case set_exception (future entry) x fs of
                  Inl e \<Rightarrow> (Some e, removed, fs)
                | Inr fs' \<Rightarrow> dispatch_loop ev d rest (removed @ [index]) fs')
             else (Some x, removed, fs)
         | Inr valid \<Rightarrow>
             if valid then
               (case apply_result (result entry) d of
                  Inl e \<Rightarrow> (Some e, removed, fs)
                | Inr ret \<Rightarrow>
                    (case set_result (future entry) ret fs of
                       Inl e \<Rightarrow> (Some e, removed, fs)
                     | Inr fs' \<Rightarrow> dispatch_loop ev d rest (removed @ [index]) fs'))
             else dispatch_loop ev d rest removed fs))"

text \<open>
  The second loop: \<^verbatim>\<open>del self._dispatch_listeners[index]\<close> for each index of the
  given list in turn; a \<^verbatim>\<open>del\<close> out of range raises \<^verbatim>\<open>IndexError\<close>.
\<close>

fun del_indices :: "nat list \<Rightarrow> 'a list \<Rightarrow> exc + 'a list" where
  "del_indices [] xs = Inr xs"
| "del_indices (i # is) xs =
     (if i < length xs then del_indices is (take i xs @ drop (Suc i) xs) else Inl IndexError)"

definition remove_dispatched_listeners :: "string \<Rightarrow> 'v \<Rightarrow> 'v ws \<Rightarrow> exc option \<times> 'v ws" where
  "remove_dispatched_listeners ev d s =
     (case dispatch_loop ev d (enumerate 0 (dispatch_listeners s)) [] (futures s) of
        (Some e, removed, fs) \<Rightarrow> (Some e, s\<lparr>futures := fs\<rparr>)
      | (None, removed, fs) \<Rightarrow>
          (case del_indices (rev removed) (dispatch_listeners s) of
             Inl e \<Rightarrow> (Some e, s\<lparr>futures := fs\<rparr>)
           | Inr ls \<Rightarrow> (None, s\<lparr>futures := fs, dispatch_listeners := ls\<rparr>)))"

text \<open>
  \<^verbatim>\<open>__init__\<close>: an open socket, no keep-alive handler, no parsers, no listeners, no
  close code and no rate limiter.
\<close>

definition ws_init :: "'v ws" where
  "ws_init =
     \<lparr>socket_closed = False, socket_close_code = None, keep_alive_thread = None,
      keep_alive = False, parsers = Map.empty, handled = [], dispatch_listeners = [],
      futures = (\<lambda>f. Pending), next_future = 0, close_code = None, rate_limiter = None,
      counter = 0, io = []\<rparr>"

text \<open>
  \<^verbatim>\<open>code = self._close_code or self.socket.close_code\<close>: Python's \<^verbatim>\<open>or\<close> takes the
  second operand when the first is \<^verbatim>\<open>None\<close> or 0.
\<close>

definition effective_close_code :: "'v ws \<Rightarrow> int option" where
  "effective_close_code s =
     (case close_code s of
        Some c \<Rightarrow> if c \<noteq> 0 then Some c else socket_close_code s
      | None \<Rightarrow> socket_close_code s)"

definition can_handle_close :: "'v ws \<Rightarrow> bool" where
  "can_handle_close s =
     (case effective_close_code s of
        None \<Rightarrow> True
      | Some c \<Rightarrow> c \<notin> set [1000, 4004, 4010, 4011, 4012, 4013, 4014])"




text \<open>
  \<^verbatim>\<open>close(code)\<close>. \<open>outcome\<close> is what \<^verbatim>\<open>await self.socket.close(code=code)\<close> does:
  it raises, or the socket is closed and reports a close code of its own.
\<close>

definition close :: "int \<Rightarrow> exc + int option \<Rightarrow> 'v ws \<Rightarrow> exc option \<times> 'v ws" where
  "close code outcome s =
     (let s1 = (if keep_alive s
                then s\<lparr>keep_alive_thread := map_option stop (keep_alive_thread s),
                       keep_alive := False\<rparr>
                else s);
          s2 = s1\<lparr>close_code := Some code, io := io s1 @ [Socket_close code]\<rparr>
      in case outcome of
           Inl e \<Rightarrow> (Some e, s2)
         | Inr c \<Rightarrow> (None, s2\<lparr>socket_closed := True, socket_close_code := c\<rparr>))"

text \<open>
  \<^verbatim>\<open>send\<close>: \<^verbatim>\<open>await self.rate_limiter.block()\<close>, then \<^verbatim>\<open>self.dispatch\<close>, then
  \<^verbatim>\<open>self.socket.send_str(data)\<close>, whose outcome is \<open>wr\<close>. With no rate limiter
  (\<^verbatim>\<open>None\<close>) the first line raises \<^verbatim>\<open>AttributeError\<close>.
\<close>

definition send :: "real \<Rightarrow> exc option \<Rightarrow> string \<Rightarrow> 'v ws \<Rightarrow> exc option \<times> 'v ws" where
  "send current wr data s =
     (case rate_limiter s of
        None \<Rightarrow> (Some AttributeError, s)
      | Some rl \<Rightarrow>
          (let (slept, rl') = block current rl
           in (wr, s\<lparr>rate_limiter := Some rl',
                     io := io s @ [Rate_limited slept, Dispatch ''socket_raw_send'' data,
                                   Send_str data]\<rparr>)))"

text \<open>
  \<^verbatim>\<open>send_as_json\<close>; \<open>to_json\<close> stands for \<^verbatim>\<open>json.dumps\<close>.
  \<^verbatim>\<open>ConnectionClosed(self.socket)\<close> carries \<^verbatim>\<open>socket.close_code\<close>.
\<close>

definition send_as_json ::
  "(json \<Rightarrow> string) \<Rightarrow> real \<Rightarrow> exc option \<Rightarrow> json \<Rightarrow> 'v ws \<Rightarrow> exc option \<times> 'v ws" where
  "send_as_json to_json current wr data s =
     (case send current wr (to_json data) s of
        (Some e, s1) \<Rightarrow>
          if e = RuntimeError
          then (if \<not> can_handle_close s1
                then (Some (ConnectionClosed (socket_close_code s1)), s1) else (None, s1))
          else (Some e, s1)
      | (None, s1) \<Rightarrow> (None, s1))"

text \<open>
  What \<^verbatim>\<open>socket.receive\<close> gives \<^verbatim>\<open>poll_event\<close>: a timeout, or a message with its
  type and data. The data of a message is a frame body, or (for \<^verbatim>\<open>ERROR\<close>) an
  exception. Each received item comes with the reading of \<^verbatim>\<open>time.perf_counter()\<close> at
  which it is handled.
\<close>

datatype WSMsgType = CONTINUATION | TEXT | BINARY | PING | PONG | CLOSE | CLOSING | CLOSED | ERROR

datatype frame = Payload string | Exc exc





section \<open>The keep-alive thread (sockets/keep\_alive.py)\<close>

text \<open>
  One turn of the loop of \<^verbatim>\<open>run\<close>, at the reading \<open>now\<close> of \<^verbatim>\<open>time.perf_counter()\<close>,
  for the thread object of the socket. With the stop event set the loop has ended, and
  without an interval \<^verbatim>\<open>self._stop_ev.wait(None)\<close> only returns once the event is set:
  in both cases no turn is made. When the last receipt is older than the timeout the thread calls \<^verbatim>\<open>self.ws.close(4000)\<close>
  and waits for it; an exception of the close is logged and ignored, and
  \<^verbatim>\<open>finally: self.stop(); return\<close> ends the thread. Otherwise \<^verbatim>\<open>get_payload\<close> reads
  \<^verbatim>\<open>self.ws.HEARTBEAT\<close>, which no class of the repository defines: the thread ends with
  \<^verbatim>\<open>AttributeError\<close>.
\<close>

definition run_tick :: "real \<Rightarrow> exc + int option \<Rightarrow> 'v ws \<Rightarrow> exc option \<times> 'v ws" where
  "run_tick now outcome s =
     (case keep_alive_thread s of
        None \<Rightarrow> (None, s)
      | Some h \<Rightarrow>
          if stop_ev h \<or> interval h = None then (None, s)
          else if last_recv h + heartbeat_timeout h < now then
            (let (r, s1) = close 4000 outcome s
             in (None, s1\<lparr>keep_alive_thread := map_option stop (keep_alive_thread s1)\<rparr>))
          else (Some AttributeError, s))"

section \<open>Strings and JSON values as Python sees them\<close>

text \<open>Truth value of a decoded value (\<^verbatim>\<open>if x:\<close>).\<close>

fun truthy :: "json \<Rightarrow> bool" where
  "truthy JNull = False"
| "truthy (JBool b) = b"
| "truthy (JInt i) = (i \<noteq> 0)"
| "truthy (JFloat r) = (r \<noteq> 0)"
| "truthy (JStr s) = (s \<noteq> [])"
| "truthy (JArr xs) = (xs \<noteq> [])"
| "truthy (JObj kv) = (kv \<noteq> [])"


text \<open>\<^verbatim>\<open>sub in s\<close> for strings.\<close>

fun contains :: "string \<Rightarrow> string \<Rightarrow> bool" where
  "contains sub [] = (sub = [])"
| "contains sub (c # cs) = (take (length sub) (c # cs) = sub \<or> contains sub cs)"

text \<open>\<^verbatim>\<open>str.lower\<close> and \<^verbatim>\<open>str.upper\<close> on ASCII letters; other characters are kept.\<close>

definition lower_char :: "char \<Rightarrow> char" where
  "lower_char c =
     (case map_of (zip ''ABCDEFGHIJKLMNOPQRSTUVWXYZ'' ''abcdefghijklmnopqrstuvwxyz'') c of
        None \<Rightarrow> c | Some l \<Rightarrow> l)"

definition upper_char :: "char \<Rightarrow> char" where
  "upper_char c =
     (case map_of (zip ''abcdefghijklmnopqrstuvwxyz'' ''ABCDEFGHIJKLMNOPQRSTUVWXYZ'') c of
        None \<Rightarrow> c | Some u \<Rightarrow> u)"

definition lower :: "string \<Rightarrow> string" where
  "lower s = map lower_char s"

definition upper :: "string \<Rightarrow> string" where
  "upper s = map upper_char s"

text \<open>\<^verbatim>\<open>x == n\<close> for a decoded value and an integer constant.\<close>

fun py_eq_int :: "json \<Rightarrow> int \<Rightarrow> bool" where
  "py_eq_int (JInt i) n = (i = n)"
| "py_eq_int (JFloat r) n = (r = of_int n)"
| "py_eq_int (JBool b) n = ((if b then 1 else 0) = n)"
| "py_eq_int j n = False"

text \<open>\<^verbatim>\<open>msg[i]\<close> for an integer \<open>i\<close> (a decoded dict has string keys only).\<close>

fun subscript :: "json \<Rightarrow> nat \<Rightarrow> exc + json" where
  "subscript (JArr xs) i = (if i < length xs then Inr (xs ! i) else Inl IndexError)"
| "subscript (JStr s) i = (if i < length s then Inr (JStr [s ! i]) else Inl IndexError)"
| "subscript (JObj kv) i = Inl (KeyError_int i)"
| "subscript j i = Inl TypeError"

text \<open>\<^verbatim>\<open>payload[key]\<close> for a string key.\<close>

fun getitem :: "json \<Rightarrow> string \<Rightarrow> exc + json" where
  "getitem (JObj kv) k = (case map_of kv k of None \<Rightarrow> Inl (KeyError k) | Some v \<Rightarrow> Inr v)"
| "getitem j k = Inl TypeError"

text \<open>\<^verbatim>\<open>key in payload\<close> for a string key.\<close>

fun py_in :: "string \<Rightarrow> json \<Rightarrow> exc + bool" where
  "py_in k (JObj kv) = Inr (map_of kv k \<noteq> None)"
| "py_in k (JArr xs) = Inr (JStr k \<in> set xs)"
| "py_in k (JStr s) = Inr (contains k s)"
| "py_in k j = Inl TypeError"

text \<open>\<^verbatim>\<open>x.upper()\<close> for a decoded value: only a string has the method.\<close>

fun upper_of :: "json \<Rightarrow> exc + string" where
  "upper_of (JStr s) = Inr (upper s)"
| "upper_of j = Inl AttributeError"

text \<open>Calling a parser found in \<^verbatim>\<open>self.parsers\<close>: the call is recorded, then it returns or raises.\<close>

definition call_parser ::
  "(json \<Rightarrow> exc option) \<Rightarrow> string \<Rightarrow> json \<Rightarrow> 'v ws \<Rightarrow> exc option \<times> 'v ws" where
  "call_parser func ev x s = (func x, s\<lparr>handled := handled s @ [(ev, x)]\<rparr>)"

text \<open>\<^verbatim>\<open>if self._keep_alive: self._keep_alive.tick()\<close>.\<close>

definition keep_alive_tick :: "real \<Rightarrow> 'v ws \<Rightarrow> 'v ws" where
  "keep_alive_tick pc s =
     (if keep_alive s then s\<lparr>keep_alive_thread := map_option (tick pc) (keep_alive_thread s)\<rparr>
      else s)"

section \<open>The Binance socket (sockets/binance/gateway.py)\<close>


text \<open>
  \<^verbatim>\<open>subscribe\<close> and \<^verbatim>\<open>unsubscribe\<close> build a payload and hand it to
  \<^verbatim>\<open>self.socket.send_json\<close>, whose outcome is \<open>wr\<close>. \<^verbatim>\<open>unsubscribe\<close> formats its
  optional arguments into the stream name (\<^verbatim>\<open>None\<close> prints as \<^verbatim>\<open>None\<close>).
\<close>

definition subscribe_binance :: "exc option \<Rightarrow> string \<Rightarrow> 'v ws \<Rightarrow> exc option \<times> 'v ws" where
  "subscribe_binance wr market s =
     (let market = lower market;
          payload = JObj [(''method'', JStr ''SUBSCRIBE''),
                          (''params'', JArr [JStr (market @ ''@trade''), JStr (market @ ''@depth''),
                                             JStr (market @ ''@kline_1h''),
                                             JStr (market @ ''@ticker'')]),
                          (''id'', JInt (counter s))]
      in (wr, s\<lparr>io := io s @ [Send_json payload]\<rparr>))"

definition py_str :: "string option \<Rightarrow> string" where
  "py_str x = (case x of None \<Rightarrow> ''None'' | Some s \<Rightarrow> s)"

definition unsubscribe_binance ::
  "exc option \<Rightarrow> string option \<Rightarrow> string option \<Rightarrow> 'v ws \<Rightarrow> exc option \<times> 'v ws" where
  "unsubscribe_binance wr subscription_topic market s =
     (let payload = JObj [(''method'', JStr ''SUBSCRIBE''),
                          (''params'', JArr [JStr (py_str market @ ''@'' @ py_str subscription_topic)]),
                          (''id'', JInt (counter s))]
      in (wr, s\<lparr>io := io s @ [Send_json payload]\<rparr>))"


section \<open>The Bitmex socket (sockets/bitmex/gateway.py)\<close>

definition subscribe_bitmex :: "exc option \<Rightarrow> string \<Rightarrow> 'v ws \<Rightarrow> exc option \<times> 'v ws" where
  "subscribe_bitmex wr market s =
     (let payload = JArr [JInt 0, JNull, JStr market,
                          JObj [(''op'', JStr ''subscribe''),
                                (''args'', JArr [JStr ('':'' @ upper market)])]]
      in (wr, s\<lparr>io := io s @ [Send_json payload]\<rparr>))"

text \<open>
  \<^verbatim>\<open>unsubscribe\<close>: with a topic and a market it evaluates \<^verbatim>\<open>market.UPPER\<close>, which a
  string does not have, and raises before anything is sent.
\<close>

definition unsubscribe_bitmex ::
  "exc option \<Rightarrow> json \<Rightarrow> json \<Rightarrow> string option \<Rightarrow> string option \<Rightarrow> 'v ws
     \<Rightarrow> exc option \<times> 'v ws" where
  "unsubscribe_bitmex wr shard_id session_id subscription_topic market s =
     (let has_topic = (subscription_topic \<noteq> None \<and> subscription_topic \<noteq> Some []);
          has_market = (market \<noteq> None \<and> market \<noteq> Some []);
          payload = [JInt 0, shard_id, session_id] @
                    (if has_topic
                     then [JObj [(''op'', JStr ''subscribe''),
                                 (''args'', JStr (py_str subscription_topic))]]
                     else [])
      in if has_topic \<and> has_market then (Some AttributeError, s)
         else (wr, s\<lparr>io := io s @ [Send_json (JArr payload)]\<rparr>))"

text \<open>
  \<^verbatim>\<open>while data: func(data.pop())\<close> on a list: the last entry is taken off and handed to
  the parser, until the list is empty or the parser raises. The result is the exception,
  if any, the list as the loop leaves it, and the socket with the calls recorded.
\<close>

function pop_loop ::
  "(json \<Rightarrow> exc option) \<Rightarrow> string \<Rightarrow> json list \<Rightarrow> 'v ws \<Rightarrow> exc option \<times> json list \<times> 'v ws" where
  "pop_loop func ev data s =
     (if data \<noteq> [] then
        (case call_parser func ev (last data) s of
           (Some e, s') \<Rightarrow> (Some e, butlast data, s')
         | (None, s') \<Rightarrow> pop_loop func ev (butlast data) s')
      else (None, data, s))"
  by pat_completeness auto
termination
  by (relation "measure (\<lambda>(func, ev, data, s). length data)") auto

text \<open>
  The same statement on whatever \<^verbatim>\<open>payload['data']\<close> is: a value that is false is left
  alone; a true value that is no list has no \<^verbatim>\<open>pop()\<close> without argument
  (\<^verbatim>\<open>TypeError\<close> for a dict, \<^verbatim>\<open>AttributeError\<close> otherwise).
\<close>

definition consume ::
  "(json \<Rightarrow> exc option) \<Rightarrow> string \<Rightarrow> json \<Rightarrow> 'v ws \<Rightarrow> exc option \<times> json \<times> 'v ws" where
  "consume func ev data s =
     (case data of
        JArr xs \<Rightarrow> (case pop_loop func ev xs s of (r, xs', s') \<Rightarrow> (r, JArr xs', s'))
      | JObj kv \<Rightarrow> if truthy data then (Some TypeError, data, s) else (None, data, s)
      | other \<Rightarrow> if truthy data then (Some AttributeError, data, s) else (None, data, s))"

text \<open>
  \<^verbatim>\<open>received_message\<close>, with \<^verbatim>\<open>MESSAGE = 0\<close> and \<^verbatim>\<open>UNSUBSCRIBE = 2\<close>. The list
  \<^verbatim>\<open>data\<close> that the \<^verbatim>\<open>while\<close> loop empties is the object handed to
  \<^verbatim>\<open>_remove_dispatched_listeners\<close> afterwards.
\<close>

definition received_message_bitmex ::
  "(frame \<Rightarrow> exc + json) \<Rightarrow> real \<Rightarrow> frame \<Rightarrow> json ws \<Rightarrow> exc option \<times> json ws" where
  "received_message_bitmex loads pc raw s =
     (case loads raw of
        Inl e \<Rightarrow> (Some e, s)
      | Inr msg \<Rightarrow>
          (case subscript msg 0 of
             Inl e \<Rightarrow> (Some e, s)
           | Inr op \<Rightarrow>
               (case subscript msg 3 of
                  Inl e \<Rightarrow> (Some e, s)
                | Inr payload \<Rightarrow>
                    (let s1 = keep_alive_tick pc s
                     in if py_eq_int op 2 then (None, s1)
                        else
                          (case (if py_eq_int op 0 then py_in ''success'' payload else Inr False) of
                             Inl e \<Rightarrow> (Some e, s1)
                           | Inr subscribed \<Rightarrow>
                               if subscribed then (None, s1)
                               else
                                 (case getitem payload ''table'' of
                                    Inl e \<Rightarrow> (Some e, s1)
                                  | Inr table \<Rightarrow>
                                 (case getitem payload ''action'' of
                                    Inl e \<Rightarrow> (Some e, s1)
                                  | Inr action \<Rightarrow>
                                 (case getitem payload ''data'' of
                                    Inl e \<Rightarrow> (Some e, s1)
                                  | Inr data \<Rightarrow>
                                 (case upper_of table of
                                    Inl e \<Rightarrow> (Some e, s1)
                                  | Inr t \<Rightarrow>
                                 (case upper_of action of
                                    Inl e \<Rightarrow> (Some e, s1)
                                  | Inr a \<Rightarrow>
                                      (let ev = t @ ''_'' @ a
                                       in case (case parsers s1 ev of
                                                  None \<Rightarrow> (None, data, s1)
                                                | Some func \<Rightarrow> consume func ev data s1) of
                                            (Some e, data', s2) \<Rightarrow> (Some e, s2)
                                          | (None, data', s2) \<Rightarrow>
                                              remove_dispatched_listeners ev data' s2)))))))))))"

text \<open>
  \<^verbatim>\<open>ConnectionState.parse_kline_update\<close> (sockets/base\_state.py), the parser for
  \<^verbatim>\<open>KLINE_UPDATE\<close>: it prints and reads \<^verbatim>\<open>data['E']\<close>.
\<close>

definition parse_kline_update :: "json \<Rightarrow> exc option" where
  "parse_kline_update data = (case getitem data ''E'' of Inl e \<Rightarrow> Some e | Inr v \<Rightarrow> None)"


section \<open>Notions used to state and prove the properties of the listener registry\<close>

text \<open>
  What one turn of the first loop of \<^verbatim>\<open>_remove_dispatched_listeners\<close> does with an
  entry: it keeps it, marks it for removal (with the futures as they then are), or leaves
  the method with an exception.
\<close>

datatype 'v step = Keep | Remove "'v futures" | Abort exc

definition entry_step :: "string \<Rightarrow> 'v \<Rightarrow> 'v EventListener \<Rightarrow> 'v futures \<Rightarrow> 'v step" where
  "entry_step ev d e fs =
     (if event e \<noteq> ev then Keep
      else if fs (future e) = Cancelled then Remove fs
      else
        (case predicate e d of
           Inl x \<Rightarrow>
             if is_Exception x then
               (case set_exception (future e) x fs of
                  Inl err \<Rightarrow> Abort err | Inr fs' \<Rightarrow> Remove fs')
             else Abort x
         | Inr valid \<Rightarrow>
             if valid then
               (case apply_result (result e) d of
                  Inl err \<Rightarrow> Abort err
                | Inr ret \<Rightarrow>
                    (case set_result (future e) ret fs of
                       Inl err \<Rightarrow> Abort err | Inr fs' \<Rightarrow> Remove fs'))
             else Keep))"

text \<open>
  The two loops of \<^verbatim>\<open>_remove_dispatched_listeners\<close> as one pass that builds the list of
  the entries kept. It is not taken from the source: lemma
  \<open>remove_dispatched_listeners_single_pass\<close> below proves that the index bookkeeping of the
  source computes the same, and the properties are then proved on the pass.
\<close>

fun single_pass ::
  "string \<Rightarrow> 'v \<Rightarrow> 'v EventListener list \<Rightarrow> 'v futures
     \<Rightarrow> exc option \<times> 'v EventListener list \<times> 'v futures" where
  "single_pass ev d [] fs = (None, [], fs)"
| "single_pass ev d (e # es) fs =
     (case entry_step ev d e fs of
        Keep \<Rightarrow> (case single_pass ev d es fs of (r, ks, fs') \<Rightarrow> (r, e # ks, fs'))
      | Remove fs1 \<Rightarrow> single_pass ev d es fs1
      | Abort err \<Rightarrow> (Some err, e # es, fs))"

text \<open>
  A future state \<open>st\<close> is what the dispatch of data \<open>d\<close> owes the listener \<open>w\<close>: the
  exception of its predicate, or the value of its result function.
\<close>

definition settled :: "'v \<Rightarrow> 'v EventListener \<Rightarrow> 'v future_state \<Rightarrow> bool" where
  "settled d w st =
     (case predicate w d of
        Inl x \<Rightarrow> st = Exception x
      | Inr valid \<Rightarrow>
          valid \<and> (case apply_result (result w) d of Inl e \<Rightarrow> False | Inr v \<Rightarrow> st = Result v))"

text \<open>
  The registry as \<^verbatim>\<open>wait_for\<close> builds it: every listener has a future of its own, made
  by the loop before the next one to be made.
\<close>

definition registry_ok :: "'v ws \<Rightarrow> bool" where
  "registry_ok s =
     (distinct (map future (dispatch_listeners s)) \<and>
      list_all (\<lambda>e. future e < next_future s) (dispatch_listeners s))"

text \<open>
  The operations on the registry: \<^verbatim>\<open>wait_for\<close>, the caller cancelling a future, and a
  dispatch. A run keeps the state each operation leaves, whether or not it raised.
\<close>

datatype 'v reg_op =
    Op_wait_for string "'v \<Rightarrow> exc + bool" "('v \<Rightarrow> exc + 'v) option"
  | Op_cancel nat
  | Op_dispatch string 'v

fun reg_step :: "'v ws \<Rightarrow> 'v reg_op \<Rightarrow> 'v ws" where
  "reg_step s (Op_wait_for ev p res) = snd (wait_for ev p res s)"
| "reg_step s (Op_cancel f) = cancel f s"
| "reg_step s (Op_dispatch ev d) = snd (remove_dispatched_listeners ev d s)"

definition reg_run :: "'v ws \<Rightarrow> 'v reg_op list \<Rightarrow> 'v ws" where
  "reg_run s ops = foldl reg_step s ops"

text \<open>
  An operation that is neither a dispatch of the event \<open>ev\<close> nor the cancelling of the
  future \<open>f\<close>.
\<close>

fun unrelated :: "string \<Rightarrow> nat \<Rightarrow> 'v reg_op \<Rightarrow> bool" where
  "unrelated ev f (Op_wait_for ev' p res) = True"
| "unrelated ev f (Op_cancel g) = (g \<noteq> f)"
| "unrelated ev f (Op_dispatch ev' d) = (ev' \<noteq> ev)"

text \<open>Callbacks for the concrete runs below.\<close>

definition always_true :: "json \<Rightarrow> exc + bool" where
  "always_true d = Inr True"

definition raising_predicate :: "json \<Rightarrow> exc + bool" where
  "raising_predicate d = Inl (Raised ''predicate'')"

definition stop_iteration_predicate :: "json \<Rightarrow> exc + bool" where
  "stop_iteration_predicate d = Inl StopIteration"

definition interrupted_predicate :: "json \<Rightarrow> exc + bool" where
  "interrupted_predicate d = Inl (BaseException ''KeyboardInterrupt'')"

definition raising_result :: "json \<Rightarrow> exc + json" where
  "raising_result d = Inl (Raised ''result'')"

definition wrap_result :: "json \<Rightarrow> exc + json" where
  "wrap_result d = Inr (JArr [d])"

text \<open>
  Concrete registries: a waiter for event \<open>E\<close> with an always-true predicate,
  registered on a fresh socket, and the socket after an unrelated dispatch and the first
  dispatch of \<open>E\<close>; and a waiter whose predicate raises, followed by one that matches.
\<close>

definition waiter_registered :: "json ws" where
  "waiter_registered = snd (wait_for ''E'' always_true (Some wrap_result) ws_init)"

definition waiter_dispatched :: "json ws" where
  "waiter_dispatched =
     snd (remove_dispatched_listeners ''E'' (JInt 7)
            (reg_run waiter_registered [Op_dispatch ''F'' JNull]))"

definition raising_first :: "json ws" where
  "raising_first =
     snd (wait_for ''E'' always_true None (snd (wait_for ''E'' raising_predicate None ws_init)))"

text \<open>A socket whose keep-alive thread last saw a frame at reading 10, with a timeout of 6.\<close>

definition stalled :: "json ws" where
  "stalled =
     ws_init\<lparr>keep_alive_thread :=
               Some \<lparr>interval = Some 5, stop_ev = False, last_ack = 10, last_send = 10,
                     last_recv = 10, heartbeat_timeout = 6\<rparr>,
             keep_alive := True\<rparr>"






text \<open>
  A list of socket and limiter calls is gated when every write of it
  (\<^verbatim>\<open>send_str\<close>, \<^verbatim>\<open>send_json\<close>) comes after a call of the rate limiter's
  \<^verbatim>\<open>block\<close> made since the write before it. \<open>io_since s s'\<close> is what was done between
  the states \<open>s\<close> and \<open>s'\<close>.
\<close>

fun gated :: "bool \<Rightarrow> io_event list \<Rightarrow> bool" where
  "gated tok [] = True"
| "gated tok (Rate_limited d # es) = gated True es"
| "gated tok (Send_str x # es) = (tok \<and> gated False es)"
| "gated tok (Send_json x # es) = (tok \<and> gated False es)"
| "gated tok (Dispatch a b # es) = gated tok es"
| "gated tok (Socket_close c # es) = gated tok es"

definition io_since :: "'v ws \<Rightarrow> 'v ws \<Rightarrow> io_event list" where
  "io_since s s' = drop (length (io s)) (io s')"

text \<open>
  A socket with the rate limiter the Binance class sets up
  (\<^verbatim>\<open>GatewayRatelimiter(5, 1)\<close>). The Bitmex class leaves \<^verbatim>\<open>self.rate_limiter\<close> at
  \<^verbatim>\<open>None\<close> (it stores its limiter in another attribute that nothing reads): its
  socket is \<open>ws_init\<close>.
\<close>

definition limited_socket :: "json ws" where
  "limited_socket = ws_init\<lparr>rate_limiter := Some (GatewayRatelimiter_init 5 1)\<rparr>"

text \<open>
  Concrete frames for the Bitmex socket, and \<^verbatim>\<open>orjson.loads\<close> on them: an update of
  the table \<^verbatim>\<open>kline\<close> with three entries of which only the last has the field
  \<^verbatim>\<open>E\<close>, and one with two entries that both have it. \<open>kline_socket\<close> has the parser
  for \<^verbatim>\<open>KLINE_UPDATE\<close> registered and one waiter for that event (future 0).
\<close>

definition partial_kline_frame :: frame where
  \<open>partial_kline_frame =
     Payload ''[0,null,null,{"table":"kline","action":"update","data":[{"a":1},{"b":2},{"E":5}]}]''\<close>

definition full_kline_frame :: frame where
  \<open>full_kline_frame =
     Payload ''[0,null,null,{"table":"kline","action":"update","data":[{"E":1},{"E":2}]}]''\<close>

definition loads_bitmex_sample :: "frame \<Rightarrow> exc + json" where
  "loads_bitmex_sample raw =
     (if raw = partial_kline_frame
      then Inr (JArr [JInt 0, JNull, JNull,
                      JObj [(''table'', JStr ''kline''), (''action'', JStr ''update''),
                            (''data'', JArr [JObj [(''a'', JInt 1)], JObj [(''b'', JInt 2)],
                                             JObj [(''E'', JInt 5)]])]])
      else if raw = full_kline_frame
      then Inr (JArr [JInt 0, JNull, JNull,
                      JObj [(''table'', JStr ''kline''), (''action'', JStr ''update''),
                            (''data'', JArr [JObj [(''E'', JInt 1)], JObj [(''E'', JInt 2)]])]])
      else Inl JSONDecodeError)"

definition kline_socket :: "json ws" where
  "kline_socket =
     snd (wait_for ''KLINE_UPDATE'' always_true None
            (ws_init\<lparr>parsers := [''KLINE_UPDATE'' \<mapsto> parse_kline_update]\<rparr>))"

section \<open>Properties of the rate limiter\<close>

lemma get_delay_remaining_bounds:
  assumes "0 \<le> remaining rl" "remaining rl \<le> max_count rl"
  shows "0 \<le> remaining (snd (get_delay t rl)) \<and>
         remaining (snd (get_delay t rl)) \<le> max_count rl \<and>
         max_count (snd (get_delay t rl)) = max_count rl"
  using assms by (auto simp: get_delay_def Let_def)

lemma rl_step_bounds:
  assumes "0 \<le> remaining rl" "remaining rl \<le> max_count rl"
  shows "0 \<le> remaining (rl_step rl x) \<and> remaining (rl_step rl x) \<le> max_count rl \<and>
         max_count (rl_step rl x) = max_count rl"
proof (cases x)
  case (Is_ratelimited t)
  then show ?thesis using assms by simp
next
  case (Get_delay t)
  then show ?thesis using get_delay_remaining_bounds [OF assms] by simp
next
  case (Block t)
  then show ?thesis
    using get_delay_remaining_bounds [OF assms, of t]
    by (simp add: block_def split_beta Let_def)
qed

lemma rl_run_bounds:
  assumes "0 \<le> remaining rl" "remaining rl \<le> max_count rl"
  shows "0 \<le> remaining (rl_run rl ops) \<and> remaining (rl_run rl ops) \<le> max_count rl \<and>
         max_count (rl_run rl ops) = max_count rl"
  using assms
proof (induction ops arbitrary: rl)
  case Nil
  then show ?case by (simp add: rl_run_def)
next
  case (Cons x ops)
  have step: "0 \<le> remaining (rl_step rl x)" "remaining (rl_step rl x) \<le> max_count (rl_step rl x)"
    "max_count (rl_step rl x) = max_count rl"
    using rl_step_bounds [OF Cons.prems, of x] by simp_all
  have "rl_run rl (x # ops) = rl_run (rl_step rl x) ops" by (simp add: rl_run_def)
  then show ?case using Cons.IH [OF step(1) step(2)] step(3) by simp
qed

text \<open>
  Claim C9. A limiter is created with \<^verbatim>\<open>remaining = max = count\<close>. For a count that is
  not negative, after every sequence of \<^verbatim>\<open>is_ratelimited\<close>, \<^verbatim>\<open>get_delay\<close> and
  \<^verbatim>\<open>block\<close> calls, at any clock readings, \<open>0 \<le> remaining \<le> max\<close> holds (and \<^verbatim>\<open>max\<close>
  is still the count). The statement is about every list of operations, so it holds after
  every operation of a run.
\<close>

theorem C9_remaining_never_negative:
  assumes "0 \<le> count"
  shows "0 \<le> remaining (rl_run (GatewayRatelimiter_init count p) ops) \<and>
         remaining (rl_run (GatewayRatelimiter_init count p) ops) \<le> count \<and>
         max_count (rl_run (GatewayRatelimiter_init count p) ops) = count"
proof -
  let ?rl = "GatewayRatelimiter_init count p"
  have a: "0 \<le> remaining ?rl" using assms by (simp add: GatewayRatelimiter_init_def)
  have b: "remaining ?rl \<le> max_count ?rl" by (simp add: GatewayRatelimiter_init_def)
  have c: "max_count ?rl = count" by (simp add: GatewayRatelimiter_init_def)
  show ?thesis using rl_run_bounds [OF a b, of ops] c by simp
qed

theorem C9_remaining_never_negative_witness:
  "(0::int) \<le> 2 \<and>
   remaining (rl_run (GatewayRatelimiter_init 2 1)
     [Get_delay 100, Block 100, Is_ratelimited 100, Block 100]) = 0"
proof -
  have h: "(0::int) \<le> 2" by simp
  have "remaining (rl_run (GatewayRatelimiter_init 2 1)
     [Get_delay 100, Block 100, Is_ratelimited 100, Block 100]) = 0"
    using C9_remaining_never_negative [OF h, of 1 "[Get_delay 100, Block 100, Is_ratelimited 100, Block 100]"]
    by (simp add: rl_run_def GatewayRatelimiter_init_def get_delay_def block_def Let_def)
  then show ?thesis by simp
qed

text \<open>
  Claim C3. When the clock reading of a \<^verbatim>\<open>get_delay\<close> call is past the end of the
  window (\<open>current > window + per\<close>), the call behaves exactly as it does on a limiter
  whose \<^verbatim>\<open>remaining\<close> has been reset to \<^verbatim>\<open>max\<close> and whose window starts at the
  reading, whatever \<^verbatim>\<open>remaining\<close> was before (exhausted or not). The same call then
  takes one token of the fresh window: it returns delay 0 and leaves
  \<open>remaining = max - 1\<close> with the window starting at the reading (for \<open>max = 0\<close> there
  is no token to take and the delay is \<^verbatim>\<open>per\<close>).
\<close>

theorem C3_window_reset:
  assumes "current > window rl + per rl"
  shows "get_delay current rl =
           get_delay current (rl\<lparr>remaining := max_count rl, window := current\<rparr>) \<and>
         (max_count rl \<noteq> 0 \<longrightarrow>
            get_delay current rl = (0, rl\<lparr>remaining := max_count rl - 1, window := current\<rparr>)) \<and>
         (max_count rl = 0 \<longrightarrow>
            get_delay current rl = (per rl, rl\<lparr>remaining := 0, window := current\<rparr>))"
  using assms by (auto simp: get_delay_def Let_def)

theorem C3_window_reset_witness:
  "(102::real) > window \<lparr>max_count = 3, remaining = 0, window = 100, per = 1\<rparr>
                 + per \<lparr>max_count = 3, remaining = 0, window = 100, per = 1\<rparr> \<and>
   get_delay 102 \<lparr>max_count = 3, remaining = 0, window = 100, per = 1\<rparr> =
     (0, \<lparr>max_count = 3, remaining = 2, window = 102, per = 1\<rparr>)"
proof -
  let ?rl = "\<lparr>max_count = 3, remaining = 0, window = 100, per = 1\<rparr>"
  have h: "(102::real) > window ?rl + per ?rl" by simp
  show ?thesis using h C3_window_reset [OF h] by (simp add: get_delay_def Let_def)
qed










section \<open>Properties of the listener registry\<close>

lemma dispatch_loop_step:
  "dispatch_loop ev d ((i, e) # rest) removed fs =
     (case entry_step ev d e fs of
        Keep \<Rightarrow> dispatch_loop ev d rest removed fs
      | Remove fs1 \<Rightarrow> dispatch_loop ev d rest (removed @ [i]) fs1
      | Abort err \<Rightarrow> (Some err, removed, fs))"
  by (simp add: entry_step_def split: sum.splits)

lemma del_indices_append:
  "del_indices (is @ js) xs =
     (case del_indices is xs of Inl e \<Rightarrow> Inl e | Inr ys \<Rightarrow> del_indices js ys)"
  by (induction "is" arbitrary: xs) auto

lemma dispatch_loop_refines:
  "\<exists>idx. dispatch_loop ev d (enumerate n es) removed fs =
            (fst (single_pass ev d es fs), removed @ idx, snd (snd (single_pass ev d es fs))) \<and>
         (fst (single_pass ev d es fs) = None \<longrightarrow>
            (\<forall>pre. length pre = n \<longrightarrow>
               del_indices (rev idx) (pre @ es) =
                 Inr (pre @ fst (snd (single_pass ev d es fs)))))"
proof (induction es arbitrary: n removed fs)
  case Nil
  show ?case by simp
next
  case (Cons e es)
  show ?case
  proof (cases "entry_step ev d e fs")
    case Keep
    from Cons.IH [of "Suc n" removed fs] obtain idx where
      l: "dispatch_loop ev d (enumerate (Suc n) es) removed fs =
            (fst (single_pass ev d es fs), removed @ idx, snd (snd (single_pass ev d es fs)))"
      and k: "fst (single_pass ev d es fs) = None \<longrightarrow>
            (\<forall>pre. length pre = Suc n \<longrightarrow>
               del_indices (rev idx) (pre @ es) = Inr (pre @ fst (snd (single_pass ev d es fs))))"
      by (elim exE conjE) (rule that)
    have "fst (single_pass ev d es fs) = None \<longrightarrow>
            (\<forall>pre. length pre = n \<longrightarrow>
               del_indices (rev idx) (pre @ e # es) =
                 Inr (pre @ e # fst (snd (single_pass ev d es fs))))"
    proof (intro impI allI)
      fix pre :: "'a EventListener list"
      assume a: "fst (single_pass ev d es fs) = None" and b: "length pre = n"
      have "length (pre @ [e]) = Suc n" using b by simp
      with k a have "del_indices (rev idx) ((pre @ [e]) @ es) =
          Inr ((pre @ [e]) @ fst (snd (single_pass ev d es fs)))"
        by blast
      then show "del_indices (rev idx) (pre @ e # es) =
                 Inr (pre @ e # fst (snd (single_pass ev d es fs)))" by simp
    qed
    then show ?thesis using l Keep
      by (intro exI [of _ idx]) (simp add: dispatch_loop_step split_beta del: dispatch_loop.simps(2))
  next
    case (Remove fs1)
    from Cons.IH [of "Suc n" "removed @ [n]" fs1] obtain idx where
      l: "dispatch_loop ev d (enumerate (Suc n) es) (removed @ [n]) fs1 =
            (fst (single_pass ev d es fs1), (removed @ [n]) @ idx,
             snd (snd (single_pass ev d es fs1)))"
      and k: "fst (single_pass ev d es fs1) = None \<longrightarrow>
            (\<forall>pre. length pre = Suc n \<longrightarrow>
               del_indices (rev idx) (pre @ es) = Inr (pre @ fst (snd (single_pass ev d es fs1))))"
      by (elim exE conjE) (rule that)
    have "fst (single_pass ev d es fs1) = None \<longrightarrow>
            (\<forall>pre. length pre = n \<longrightarrow>
               del_indices (rev (n # idx)) (pre @ e # es) =
                 Inr (pre @ fst (snd (single_pass ev d es fs1))))"
    proof (intro impI allI)
      fix pre :: "'a EventListener list"
      assume a: "fst (single_pass ev d es fs1) = None" and b: "length pre = n"
      have "length (pre @ [e]) = Suc n" using b by simp
      with k a have "del_indices (rev idx) ((pre @ [e]) @ es) =
          Inr ((pre @ [e]) @ fst (snd (single_pass ev d es fs1)))"
        by blast
      then have "del_indices (rev idx) (pre @ e # es) =
          Inr (pre @ e # fst (snd (single_pass ev d es fs1)))" by simp
      then show "del_indices (rev (n # idx)) (pre @ e # es) =
                 Inr (pre @ fst (snd (single_pass ev d es fs1)))"
        using b by (simp add: del_indices_append)
    qed
    then show ?thesis using l Remove
      by (intro exI [of _ "n # idx"]) (simp add: dispatch_loop_step del: dispatch_loop.simps(2))
  next
    case (Abort err)
    then show ?thesis
      by (intro exI [of _ "[]"]) (simp add: dispatch_loop_step del: dispatch_loop.simps(2))
  qed
qed

lemma remove_dispatched_listeners_single_pass:
  "remove_dispatched_listeners ev d s =
     (case single_pass ev d (dispatch_listeners s) (futures s) of
        (Some e, ks, fs) \<Rightarrow> (Some e, s\<lparr>futures := fs\<rparr>)
      | (None, ks, fs) \<Rightarrow> (None, s\<lparr>futures := fs, dispatch_listeners := ks\<rparr>))"
proof -
  let ?sp = "single_pass ev d (dispatch_listeners s) (futures s)"
  from dispatch_loop_refines [of ev d 0 "dispatch_listeners s" "[]" "futures s"]
  obtain idx where
    l: "dispatch_loop ev d (enumerate 0 (dispatch_listeners s)) [] (futures s) =
          (fst ?sp, [] @ idx, snd (snd ?sp))"
    and k: "fst ?sp = None \<longrightarrow>
          (\<forall>pre. length pre = 0 \<longrightarrow>
             del_indices (rev idx) (pre @ dispatch_listeners s) = Inr (pre @ fst (snd ?sp)))"
    by (elim exE conjE) (rule that)
  show ?thesis
  proof (cases "fst ?sp")
    case None
    with k have "del_indices (rev idx) (dispatch_listeners s) = Inr (fst (snd ?sp))" by simp
    then show ?thesis using l None
      by (simp add: remove_dispatched_listeners_def split_beta)
  next
    case (Some e)
    then show ?thesis using l by (simp add: remove_dispatched_listeners_def split_beta)
  qed
qed


lemma entry_step_Remove:
  assumes "entry_step ev d e fs = Remove fs1"
  shows "event e = ev \<and>
         ((fs (future e) = Cancelled \<and> fs1 = fs) \<or>
          (fs (future e) = Pending \<and>
            ((\<exists>x. predicate e d = Inl x \<and> fs1 = fs(future e := Exception x)) \<or>
             (predicate e d = Inr True \<and>
                (\<exists>v. apply_result (result e) d = Inr v \<and> fs1 = fs(future e := Result v))))))"
  using assms
  by (auto simp: entry_step_def set_exception_def set_result_def
      split: if_splits sum.splits)

lemma entry_step_frame:
  "entry_step ev d e fs = Remove fs1 \<Longrightarrow> f \<noteq> future e \<Longrightarrow> fs1 f = fs f"
  by (drule entry_step_Remove) auto

lemma entry_step_done:
  "entry_step ev d e fs = Remove fs1 \<Longrightarrow> fs f \<noteq> Pending \<Longrightarrow> fs1 f = fs f"
  by (drule entry_step_Remove) auto

lemma entry_step_other_kind: "event e \<noteq> ev \<Longrightarrow> entry_step ev d e fs = Keep"
  by (simp add: entry_step_def)

lemma entry_step_upd:
  "f \<noteq> future e \<Longrightarrow>
   entry_step ev d e (fs(f := a)) =
     (case entry_step ev d e fs of
        Keep \<Rightarrow> Keep | Remove fs1 \<Rightarrow> Remove (fs1(f := a)) | Abort err \<Rightarrow> Abort err)"
  by (auto simp: entry_step_def set_exception_def set_result_def fun_upd_twist
      split: sum.splits)

lemma single_pass_done:
  "fs f \<noteq> Pending \<Longrightarrow> snd (snd (single_pass ev d es fs)) f = fs f"
proof (induction es arbitrary: fs)
  case Nil
  show ?case by simp
next
  case (Cons e es)
  show ?case
  proof (cases "entry_step ev d e fs")
    case Keep
    then show ?thesis using Cons.IH [of fs] Cons.prems by (simp add: split_beta)
  next
    case (Remove fs1)
    have "fs1 f = fs f" using entry_step_done [OF Remove Cons.prems] .
    then show ?thesis using Cons.IH [of fs1] Cons.prems Remove by simp
  next
    case (Abort err)
    then show ?thesis by simp
  qed
qed

lemma single_pass_frame:
  "(\<forall>e\<in>set es. future e = f \<longrightarrow> event e \<noteq> ev) \<Longrightarrow>
   snd (snd (single_pass ev d es fs)) f = fs f"
proof (induction es arbitrary: fs)
  case Nil
  show ?case by simp
next
  case (Cons e es)
  have rest: "\<forall>e\<in>set es. future e = f \<longrightarrow> event e \<noteq> ev" using Cons.prems by simp
  show ?case
  proof (cases "entry_step ev d e fs")
    case Keep
    then show ?thesis using Cons.IH [OF rest] by (simp add: split_beta)
  next
    case (Remove fs1)
    have "event e = ev" using entry_step_Remove [OF Remove] by simp
    then have "f \<noteq> future e" using Cons.prems by auto
    then have "fs1 f = fs f" using entry_step_frame [OF Remove] by simp
    then show ?thesis using Cons.IH [OF rest, of fs1] Remove by simp
  next
    case (Abort err)
    then show ?thesis by simp
  qed
qed

lemma single_pass_kept:
  "fst (single_pass ev d es fs) = None \<Longrightarrow>
   set (fst (snd (single_pass ev d es fs))) \<subseteq> set es \<and>
   (distinct (map future es) \<longrightarrow> distinct (map future (fst (snd (single_pass ev d es fs)))))"
proof (induction es arbitrary: fs)
  case Nil
  show ?case by simp
next
  case (Cons e es)
  show ?case
  proof (cases "entry_step ev d e fs")
    case Keep
    then have "fst (single_pass ev d es fs) = None" using Cons.prems by (simp add: split_beta)
    from Cons.IH [OF this] show ?thesis using Keep by (auto simp: split_beta)
  next
    case (Remove fs1)
    then have "fst (single_pass ev d es fs1) = None" using Cons.prems by simp
    from Cons.IH [OF this] show ?thesis using Remove by auto
  next
    case (Abort err)
    then show ?thesis using Cons.prems by simp
  qed
qed

lemma single_pass_other_kind:
  "w \<in> set es \<Longrightarrow> event w \<noteq> ev \<Longrightarrow> fst (single_pass ev d es fs) = None \<Longrightarrow>
   w \<in> set (fst (snd (single_pass ev d es fs)))"
proof (induction es arbitrary: fs)
  case Nil
  then show ?case by simp
next
  case (Cons e es)
  show ?case
  proof (cases "entry_step ev d e fs")
    case Keep
    then have n: "fst (single_pass ev d es fs) = None" using Cons.prems by (simp add: split_beta)
    show ?thesis
    proof (cases "w = e")
      case True
      then show ?thesis using Keep by (simp add: split_beta)
    next
      case False
      then have "w \<in> set es" using Cons.prems by simp
      from Cons.IH [OF this Cons.prems(2) n] show ?thesis using Keep by (simp add: split_beta)
    qed
  next
    case (Remove fs1)
    then have n: "fst (single_pass ev d es fs1) = None" using Cons.prems by simp
    have "event e = ev" using entry_step_Remove [OF Remove] by simp
    then have "w \<noteq> e" using Cons.prems(2) by auto
    then have "w \<in> set es" using Cons.prems by simp
    from Cons.IH [OF this Cons.prems(2) n] show ?thesis using Remove by simp
  next
    case (Abort err)
    then show ?thesis using Cons.prems by simp
  qed
qed

lemma single_pass_settles:
  assumes "distinct (map future es)" "w \<in> set es" "event w = ev"
    "predicate w d \<noteq> Inr False" "fs (future w) = Pending"
    "fst (single_pass ev d es fs) = None"
  shows "settled d w (snd (snd (single_pass ev d es fs)) (future w)) \<and>
         future w \<notin> future ` set (fst (snd (single_pass ev d es fs)))"
  using assms
proof (induction es arbitrary: fs)
  case Nil
  then show ?case by simp
next
  case (Cons e es)
  have dist: "distinct (map future es)" and fresh: "future e \<notin> future ` set es"
    using Cons.prems(1) by simp_all
  show ?case
  proof (cases "w = e")
    case True
    have notin: "\<forall>e'\<in>set es. future e' = future w \<longrightarrow> event e' \<noteq> ev"
      using fresh True by (force simp: image_iff)
    show ?thesis
    proof (cases "entry_step ev d e fs")
      case Keep
      then show ?thesis using True Cons.prems(3,4,5)
        by (auto simp: entry_step_def split: sum.splits if_splits)
    next
      case (Remove fs1)
      then have n: "fst (single_pass ev d es fs1) = None" using Cons.prems(6) by simp
      have "settled d w (fs1 (future w))"
        using entry_step_Remove [OF Remove] True Cons.prems(5)
        by (auto simp: settled_def)
      moreover have "snd (snd (single_pass ev d es fs1)) (future w) = fs1 (future w)"
        using single_pass_frame [OF notin] .
      moreover have "future w \<notin> future ` set (fst (snd (single_pass ev d es fs1)))"
        using single_pass_kept [OF n] fresh True by auto
      ultimately show ?thesis using Remove by simp
    next
      case (Abort err)
      then show ?thesis using Cons.prems(6) by simp
    qed
  next
    case False
    then have win: "w \<in> set es" using Cons.prems(2) by simp
    then have ne: "future w \<noteq> future e" using fresh by (metis imageI)
    show ?thesis
    proof (cases "entry_step ev d e fs")
      case Keep
      then have n: "fst (single_pass ev d es fs) = None" using Cons.prems(6) by (simp add: split_beta)
      from Cons.IH [OF dist win Cons.prems(3,4,5) n] show ?thesis using Keep ne
        by (auto simp: split_beta)
    next
      case (Remove fs1)
      then have n: "fst (single_pass ev d es fs1) = None" using Cons.prems(6) by simp
      have p: "fs1 (future w) = Pending" using entry_step_frame [OF Remove ne] Cons.prems(5) by simp
      from Cons.IH [OF dist win Cons.prems(3,4) p n] show ?thesis using Remove by simp
    next
      case (Abort err)
      then show ?thesis using Cons.prems(6) by simp
    qed
  qed
qed

lemma single_pass_upd:
  "f \<notin> future ` set es \<Longrightarrow> single_pass ev d es fs = (r, ks, fs') \<Longrightarrow>
   single_pass ev d es (fs(f := a)) = (r, ks, fs'(f := a))"
proof (induction es arbitrary: fs r ks fs')
  case Nil
  then show ?case by auto
next
  case (Cons e es)
  have ne: "f \<noteq> future e" and rest: "f \<notin> future ` set es" using Cons.prems by auto
  note upd = entry_step_upd [OF ne, of ev d fs a]
  show ?case
  proof (cases "entry_step ev d e fs")
    case Keep
    obtain r0 ks0 fs0 where sp: "single_pass ev d es fs = (r0, ks0, fs0)"
      by (cases "single_pass ev d es fs") auto
    have res: "r = r0" "ks = e # ks0" "fs' = fs0" using Cons.prems(2) Keep sp by simp_all
    have "single_pass ev d es (fs(f := a)) = (r0, ks0, fs0(f := a))"
      using Cons.IH [OF rest sp] .
    moreover have "entry_step ev d e (fs(f := a)) = Keep" using upd Keep by simp
    ultimately have "single_pass ev d (e # es) (fs(f := a)) = (r0, e # ks0, fs0(f := a))"
      by (simp del: fun_upd_apply)
    then show ?thesis by (simp only: res)
  next
    case (Remove fs1)
    have sp: "single_pass ev d es fs1 = (r, ks, fs')" using Cons.prems(2) Remove by simp
    have "single_pass ev d es (fs1(f := a)) = (r, ks, fs'(f := a))"
      using Cons.IH [OF rest sp] .
    moreover have "entry_step ev d e (fs(f := a)) = Remove (fs1(f := a))" using upd Remove by simp
    ultimately show ?thesis by (simp del: fun_upd_apply)
  next
    case (Abort err)
    have res: "r = Some err" "ks = e # es" "fs' = fs" using Cons.prems(2) Abort by simp_all
    have "entry_step ev d e (fs(f := a)) = Abort err" using upd Abort by simp
    then show ?thesis using res by (simp del: fun_upd_apply)
  qed
qed

lemma single_pass_without:
  assumes "event w = ev" "predicate w d = Inl x" "fs (future w) = Pending"
    "future w \<notin> future ` set (xs @ ys)" "x \<noteq> StopIteration" "is_Exception x"
  shows "fst (single_pass ev d (xs @ w # ys) fs) = fst (single_pass ev d (xs @ ys) fs) \<and>
         (\<forall>g. g \<noteq> future w \<longrightarrow>
            snd (snd (single_pass ev d (xs @ w # ys) fs)) g =
            snd (snd (single_pass ev d (xs @ ys) fs)) g) \<and>
         (fst (single_pass ev d (xs @ ys) fs) = None \<longrightarrow>
            fst (snd (single_pass ev d (xs @ w # ys) fs)) = fst (snd (single_pass ev d (xs @ ys) fs)) \<and>
            snd (snd (single_pass ev d (xs @ w # ys) fs)) (future w) = Exception x)"
  using assms
proof (induction xs arbitrary: fs)
  case Nil
  have st: "entry_step ev d w fs = Remove (fs(future w := Exception x))"
    using Nil.prems(1,2,3,5,6) by (simp add: entry_step_def set_exception_def)
  obtain r ks fs' where sp: "single_pass ev d ys fs = (r, ks, fs')"
    by (cases "single_pass ev d ys fs") auto
  have "future w \<notin> future ` set ys" using Nil.prems(4) by simp
  from single_pass_upd [OF this sp, of "Exception x"] show ?case using st sp
    by simp
next
  case (Cons e xs)
  have ne: "future w \<noteq> future e" and rest: "future w \<notin> future ` set (xs @ ys)"
    using Cons.prems(4) by auto
  show ?case
  proof (cases "entry_step ev d e fs")
    case Keep
    from Cons.IH [of fs] Cons.prems(1,2,3,5,6) rest show ?thesis using Keep
      by (simp add: split_beta)
  next
    case (Remove fs1)
    have p: "fs1 (future w) = Pending" using entry_step_frame [OF Remove ne] Cons.prems(3) by simp
    from Cons.IH [of fs1] Cons.prems(1,2,5,6) p rest show ?thesis using Remove by simp
  next
    case (Abort err)
    then show ?thesis by simp
  qed
qed

lemma wait_for_fields:
  "fst (wait_for ev p res s) = next_future s"
  "dispatch_listeners (snd (wait_for ev p res s)) =
     dispatch_listeners s @ [\<lparr>predicate = p, event = ev, result = res, future = next_future s\<rparr>]"
  "futures (snd (wait_for ev p res s)) = (futures s)(next_future s := Pending)"
  "next_future (snd (wait_for ev p res s)) = Suc (next_future s)"
  by (simp_all add: wait_for_def Let_def)

lemma registry_ok_wait_for: "registry_ok s \<Longrightarrow> registry_ok (snd (wait_for ev p res s))"
  by (auto simp: registry_ok_def wait_for_fields list_all_iff less_Suc_eq)

lemma registry_ok_cancel: "registry_ok s \<Longrightarrow> registry_ok (cancel f s)"
  by (simp add: registry_ok_def cancel_def)

lemma dispatch_fields:
  "futures (snd (remove_dispatched_listeners ev d s)) =
     snd (snd (single_pass ev d (dispatch_listeners s) (futures s)))"
  "next_future (snd (remove_dispatched_listeners ev d s)) = next_future s"
  "fst (remove_dispatched_listeners ev d s) =
     fst (single_pass ev d (dispatch_listeners s) (futures s))"
  "dispatch_listeners (snd (remove_dispatched_listeners ev d s)) =
     (if fst (single_pass ev d (dispatch_listeners s) (futures s)) = None
      then fst (snd (single_pass ev d (dispatch_listeners s) (futures s)))
      else dispatch_listeners s)"
  by (auto simp: remove_dispatched_listeners_single_pass split: prod.splits option.splits)

lemma dispatch_listeners_subset:
  "set (dispatch_listeners (snd (remove_dispatched_listeners ev d s))) \<subseteq> set (dispatch_listeners s)"
  using single_pass_kept [of ev d "dispatch_listeners s" "futures s"]
  by (auto simp: dispatch_fields)

lemma registry_ok_dispatch:
  assumes "registry_ok s"
  shows "registry_ok (snd (remove_dispatched_listeners ev d s))"
proof -
  let ?s' = "snd (remove_dispatched_listeners ev d s)"
  have d: "distinct (map future (dispatch_listeners ?s'))"
    using assms single_pass_kept [of ev d "dispatch_listeners s" "futures s"]
    by (auto simp: dispatch_fields registry_ok_def)
  have "list_all (\<lambda>e. future e < next_future s) (dispatch_listeners ?s')"
    using assms dispatch_listeners_subset [of ev d s]
    by (auto simp: registry_ok_def list_all_iff)
  then show ?thesis using d by (simp add: registry_ok_def dispatch_fields(2))
qed

lemma registry_ok_step: "registry_ok s \<Longrightarrow> registry_ok (reg_step s x)"
  by (cases x) (simp_all add: registry_ok_wait_for registry_ok_cancel registry_ok_dispatch)

text \<open>A listener waiting: it is in the list and its future is pending.\<close>

lemma waiting_step:
  assumes ok: "registry_ok s" and w: "w \<in> set (dispatch_listeners s)"
    and p: "futures s (future w) = Pending" and u: "unrelated (event w) (future w) x"
  shows "w \<in> set (dispatch_listeners (reg_step s x)) \<and>
         futures (reg_step s x) (future w) = Pending"
proof (cases x)
  case (Op_wait_for ev' p' res')
  have "future w < next_future s" using ok w by (auto simp: registry_ok_def list_all_iff)
  then show ?thesis using Op_wait_for w p by (simp add: wait_for_fields)
next
  case (Op_cancel g)
  then show ?thesis using w p u by (simp add: cancel_def)
next
  case (Op_dispatch ev' d)
  then have ne: "event w \<noteq> ev'" using u by auto
  have only: "\<forall>e\<in>set (dispatch_listeners s). future e = future w \<longrightarrow> event e \<noteq> ev'"
  proof (intro ballI impI)
    fix e assume "e \<in> set (dispatch_listeners s)" "future e = future w"
    then have "e = w" using ok w by (auto simp: registry_ok_def distinct_map inj_on_def)
    then show "event e \<noteq> ev'" using ne by simp
  qed
  have f: "futures (snd (remove_dispatched_listeners ev' d s)) (future w) = Pending"
    using single_pass_frame [OF only, of d "futures s"] p by (simp add: dispatch_fields)
  have "w \<in> set (dispatch_listeners (snd (remove_dispatched_listeners ev' d s)))"
    using single_pass_other_kind [OF w ne, of d "futures s"] w
    by (auto simp: dispatch_fields)
  then show ?thesis using f Op_dispatch by simp
qed

lemma waiting_run:
  assumes "registry_ok s" "w \<in> set (dispatch_listeners s)"
    "futures s (future w) = Pending" "list_all (unrelated (event w) (future w)) ops"
  shows "registry_ok (reg_run s ops) \<and> w \<in> set (dispatch_listeners (reg_run s ops)) \<and>
         futures (reg_run s ops) (future w) = Pending"
  using assms
proof (induction ops arbitrary: s)
  case Nil
  then show ?case by (simp add: reg_run_def)
next
  case (Cons x ops)
  have u: "unrelated (event w) (future w) x" and rest: "list_all (unrelated (event w) (future w)) ops"
    using Cons.prems(4) by simp_all
  note st = waiting_step [OF Cons.prems(1,2,3) u]
  have "reg_run s (x # ops) = reg_run (reg_step s x) ops" by (simp add: reg_run_def)
  then show ?case
    using Cons.IH [OF registry_ok_step [OF Cons.prems(1)] _ _ rest, of x] st by simp
qed

text \<open>A future that is done and belongs to no listener stays so.\<close>

lemma done_step:
  assumes "f < next_future s" "futures s f \<noteq> Pending" "f \<notin> future ` set (dispatch_listeners s)"
  shows "f < next_future (reg_step s x) \<and> futures (reg_step s x) f = futures s f \<and>
         f \<notin> future ` set (dispatch_listeners (reg_step s x))"
proof (cases x)
  case (Op_wait_for ev' p' res')
  then show ?thesis using assms by (auto simp: wait_for_fields)
next
  case (Op_cancel g)
  then show ?thesis using assms by (auto simp: cancel_def)
next
  case (Op_dispatch ev' d)
  have "futures (snd (remove_dispatched_listeners ev' d s)) f = futures s f"
    using single_pass_done [of "futures s" f ev' d "dispatch_listeners s"] assms(2)
    by (simp add: dispatch_fields)
  then show ?thesis using Op_dispatch assms dispatch_listeners_subset [of ev' d s]
    by (auto simp: dispatch_fields(2))
qed

lemma done_run:
  assumes "f < next_future s" "futures s f \<noteq> Pending" "f \<notin> future ` set (dispatch_listeners s)"
  shows "futures (reg_run s ops) f = futures s f \<and>
         f \<notin> future ` set (dispatch_listeners (reg_run s ops))"
  using assms
proof (induction ops arbitrary: s)
  case Nil
  then show ?case by (simp add: reg_run_def)
next
  case (Cons x ops)
  note st = done_step [OF Cons.prems, of x]
  have a: "f < next_future (reg_step s x)" using st by simp
  have b: "futures (reg_step s x) f \<noteq> Pending" using st Cons.prems(2) by simp
  have c: "f \<notin> future ` set (dispatch_listeners (reg_step s x))" using st by simp
  have "reg_run s (x # ops) = reg_run (reg_step s x) ops" by (simp add: reg_run_def)
  then show ?case using Cons.IH [OF a b c] st by simp
qed

lemma set_once_step:
  assumes "g < next_future s" "futures s g \<noteq> Pending"
  shows "g < next_future (reg_step s x) \<and> futures (reg_step s x) g = futures s g"
proof (cases x)
  case (Op_wait_for ev' p' res')
  then show ?thesis using assms by (auto simp: wait_for_fields)
next
  case (Op_cancel h)
  then show ?thesis using assms by (auto simp: cancel_def)
next
  case (Op_dispatch ev' d)
  then show ?thesis
    using single_pass_done [of "futures s" g ev' d "dispatch_listeners s"] assms
    by (simp add: dispatch_fields)
qed

lemma set_once_run:
  assumes "g < next_future s" "futures s g \<noteq> Pending"
  shows "futures (reg_run s ops) g = futures s g"
  using assms
proof (induction ops arbitrary: s)
  case Nil
  then show ?case by (simp add: reg_run_def)
next
  case (Cons x ops)
  note st = set_once_step [OF Cons.prems, of x]
  have a: "g < next_future (reg_step s x)" using st by simp
  have b: "futures (reg_step s x) g \<noteq> Pending" using st Cons.prems(2) by simp
  have "reg_run s (x # ops) = reg_run (reg_step s x) ops" by (simp add: reg_run_def)
  then show ?case using Cons.IH [OF a b] st by simp
qed


text \<open>
  Claim C1, as stated, at a concrete run. On a fresh socket a first waiter for event \<open>E\<close>
  is registered with a result function that raises, then a second one with an always-true
  predicate and no result function (its future is number 1). The first dispatch of \<open>E\<close>
  calls the first waiter's result function outside any \<^verbatim>\<open>try\<close>: the exception leaves
  \<^verbatim>\<open>_remove_dispatched_listeners\<close> before the second waiter is looked at. Its future is
  still pending and both waiters are still in the list.
\<close>

theorem C1_counterexample:
  "fst (wait_for ''E'' always_true None
          (snd (wait_for ''E'' always_true (Some raising_result) ws_init))) = 1 \<and>
   fst (remove_dispatched_listeners ''E'' JNull
          (snd (wait_for ''E'' always_true None
             (snd (wait_for ''E'' always_true (Some raising_result) ws_init))))) =
     Some (Raised ''result'') \<and>
   futures (snd (remove_dispatched_listeners ''E'' JNull
          (snd (wait_for ''E'' always_true None
             (snd (wait_for ''E'' always_true (Some raising_result) ws_init)))))) 1 = Pending \<and>
   map future (dispatch_listeners (snd (remove_dispatched_listeners ''E'' JNull
          (snd (wait_for ''E'' always_true None
             (snd (wait_for ''E'' always_true (Some raising_result) ws_init))))))) = [0, 1]"
  by (simp add: wait_for_def ws_init_def remove_dispatched_listeners_def enumerate_eq_zip
      always_true_def raising_result_def apply_result_def set_result_def Let_def)

text \<open>
  Claim C1, amended. Start from a registry as \<^verbatim>\<open>wait_for\<close> builds it. A waiter is
  registered for event \<open>ev\<close> with a predicate that always returns true; any operations
  follow that neither dispatch \<open>ev\<close> nor cancel the waiter's future \<open>f\<close>. If the first
  dispatch of \<open>ev\<close> after that returns (no exception leaves it: none of a result function, of
  a future already done, or of a predicate that \<^verbatim>\<open>except Exception\<close> or the future
  does not take), then: the future \<open>f\<close> holds the value of the waiter's result
  function on the data (the data itself without a result function); no listener of the
  list has the future \<open>f\<close> any more; and after any further operations (dispatches of
  \<open>ev\<close> among them) the future is unchanged and the waiter is still gone. Last, in any
  state a future of the loop that is not pending is left as it is by every run of
  operations: a future is set at most once.
\<close>

theorem C1_waiter_completed_once:
  assumes ok: "registry_ok s0"
    and reg: "wait_for ev p res s0 = (f, s1)"
    and p: "\<And>x. p x = Inr True"
    and between: "list_all (unrelated ev f) ops"
    and disp: "remove_dispatched_listeners ev d (reg_run s1 ops) = (None, s2)"
  shows "(case apply_result res d of Inl e \<Rightarrow> False | Inr v \<Rightarrow> futures s2 f = Result v) \<and>
         f \<notin> future ` set (dispatch_listeners s2) \<and>
         futures (reg_run s2 later) f = futures s2 f \<and>
         f \<notin> future ` set (dispatch_listeners (reg_run s2 later)) \<and>
         (g < next_future s \<and> futures s g \<noteq> Pending
            \<longrightarrow> futures (reg_run s any) g = futures s g)"
proof -
  let ?w = "\<lparr>predicate = p, event = ev, result = res, future = f\<rparr>"
  let ?s = "reg_run s1 ops"
  have s1: "s1 = snd (wait_for ev p res s0)" using reg by simp
  have "f = fst (wait_for ev p res s0)" using reg by simp
  then have f: "f = next_future s0" by (simp add: wait_for_fields)
  have ok1: "registry_ok s1" using registry_ok_wait_for [OF ok] s1 by simp
  have w1: "?w \<in> set (dispatch_listeners s1)" using s1 f by (simp add: wait_for_fields)
  have p1: "futures s1 (future ?w) = Pending" using s1 f by (simp add: wait_for_fields)
  have u: "list_all (unrelated (event ?w) (future ?w)) ops" using between by simp
  note at = waiting_run [OF ok1 w1 p1 u]
  have dist: "distinct (map future (dispatch_listeners ?s))" using at by (simp add: registry_ok_def)
  have lt: "f < next_future ?s" using at by (auto simp: registry_ok_def list_all_iff)
  have none: "fst (single_pass ev d (dispatch_listeners ?s) (futures ?s)) = None"
    using disp dispatch_fields(3) [of ev d ?s] by simp
  have s2f: "futures s2 = snd (snd (single_pass ev d (dispatch_listeners ?s) (futures ?s)))"
    and s2l: "dispatch_listeners s2 = fst (snd (single_pass ev d (dispatch_listeners ?s) (futures ?s)))"
    and s2n: "next_future s2 = next_future ?s"
    using disp dispatch_fields [of ev d ?s] none by simp_all
  have nf: "predicate ?w d \<noteq> Inr False" using p by simp
  have "settled d ?w (snd (snd (single_pass ev d (dispatch_listeners ?s) (futures ?s))) (future ?w)) \<and>
        future ?w \<notin> future ` set (fst (snd (single_pass ev d (dispatch_listeners ?s) (futures ?s))))"
    using single_pass_settles [of "dispatch_listeners ?s" ?w ev d "futures ?s"] dist at nf none
    by simp
  then have st: "settled d ?w (futures s2 f)"
    and gone: "f \<notin> future ` set (dispatch_listeners s2)"
    using s2f s2l by simp_all
  have res: "case apply_result res d of Inl e \<Rightarrow> False | Inr v \<Rightarrow> futures s2 f = Result v"
    using st p by (simp add: settled_def)
  then have np: "futures s2 f \<noteq> Pending" by (auto split: sum.splits)
  have lt2: "f < next_future s2" using lt s2n by simp
  note later = done_run [OF lt2 np gone, of later]
  have "g < next_future s \<and> futures s g \<noteq> Pending \<longrightarrow> futures (reg_run s any) g = futures s g"
    using set_once_run [of g s any] by blast
  then show ?thesis using res gone later by blast
qed

text \<open>
  Claim C7, as stated, at three concrete runs. In the first a waiter whose predicate raises
  (future 0) is followed by a waiter whose result function raises. The dispatch sets the
  exception of the predicate on future 0 and goes on; the second waiter's result function
  then raises outside the \<^verbatim>\<open>try\<close>, the method is left before its second loop, and the
  first waiter is still in the list. In the second run the predicate of the first waiter
  raises \<^verbatim>\<open>StopIteration\<close> and a waiter that matches follows. \<^verbatim>\<open>future.set_exception\<close>
  is called in the \<^verbatim>\<open>except\<close> clause, outside any \<^verbatim>\<open>try\<close>, and refuses the
  exception: \<^verbatim>\<open>TypeError\<close> leaves the dispatch, the waiter's future is still pending,
  the waiter after it was not looked at and both are still in the list. In the third run
  the predicate raises \<^verbatim>\<open>KeyboardInterrupt\<close>, which \<^verbatim>\<open>except Exception\<close> does not
  catch: it leaves the dispatch the same way.
\<close>

theorem C7_counterexample:
  "fst (remove_dispatched_listeners ''E'' JNull
          (snd (wait_for ''E'' always_true (Some raising_result)
             (snd (wait_for ''E'' raising_predicate None ws_init))))) =
     Some (Raised ''result'') \<and>
   futures (snd (remove_dispatched_listeners ''E'' JNull
          (snd (wait_for ''E'' always_true (Some raising_result)
             (snd (wait_for ''E'' raising_predicate None ws_init)))))) 0 =
     Exception (Raised ''predicate'') \<and>
   map future (dispatch_listeners (snd (remove_dispatched_listeners ''E'' JNull
          (snd (wait_for ''E'' always_true (Some raising_result)
             (snd (wait_for ''E'' raising_predicate None ws_init))))))) = [0, 1] \<and>
   fst (remove_dispatched_listeners ''E'' JNull
          (snd (wait_for ''E'' always_true None
             (snd (wait_for ''E'' stop_iteration_predicate None ws_init))))) =
     Some TypeError \<and>
   futures (snd (remove_dispatched_listeners ''E'' JNull
          (snd (wait_for ''E'' always_true None
             (snd (wait_for ''E'' stop_iteration_predicate None ws_init)))))) 0 = Pending \<and>
   futures (snd (remove_dispatched_listeners ''E'' JNull
          (snd (wait_for ''E'' always_true None
             (snd (wait_for ''E'' stop_iteration_predicate None ws_init)))))) 1 = Pending \<and>
   map future (dispatch_listeners (snd (remove_dispatched_listeners ''E'' JNull
          (snd (wait_for ''E'' always_true None
             (snd (wait_for ''E'' stop_iteration_predicate None ws_init))))))) = [0, 1] \<and>
   fst (remove_dispatched_listeners ''E'' JNull
          (snd (wait_for ''E'' always_true None
             (snd (wait_for ''E'' interrupted_predicate None ws_init))))) =
     Some (BaseException ''KeyboardInterrupt'') \<and>
   futures (snd (remove_dispatched_listeners ''E'' JNull
          (snd (wait_for ''E'' always_true None
             (snd (wait_for ''E'' interrupted_predicate None ws_init)))))) 0 = Pending \<and>
   map future (dispatch_listeners (snd (remove_dispatched_listeners ''E'' JNull
          (snd (wait_for ''E'' always_true None
             (snd (wait_for ''E'' interrupted_predicate None ws_init))))))) = [0, 1]"
  by (simp add: wait_for_def ws_init_def remove_dispatched_listeners_def enumerate_eq_zip
      always_true_def raising_result_def raising_predicate_def stop_iteration_predicate_def
      interrupted_predicate_def apply_result_def set_result_def set_exception_def Let_def)

text \<open>
  Claim C7, amended. Take a registry as \<^verbatim>\<open>wait_for\<close> builds it and a waiter \<open>w\<close> in it
  for the dispatched event, with a pending future, whose predicate raises on the data an
  instance \<open>x\<close> of \<^verbatim>\<open>Exception\<close> other than \<^verbatim>\<open>StopIteration\<close> (which a future
  does not accept). The dispatch ends
  as it does on the list without \<open>w\<close> (the same exception or none: the predicate's
  exception is not propagated), and every future but \<open>w\<close>'s is as it is without \<open>w\<close>.
  If the dispatch returns, the future of \<open>w\<close> holds the exception \<open>x\<close>, \<open>w\<close> is no
  longer in the list, and the list is what it is without \<open>w\<close>.
\<close>

theorem C7_raising_predicate:
  assumes ok: "registry_ok s" and l: "dispatch_listeners s = xs @ w # ys"
    and ev: "event w = ev" and x: "predicate w d = Inl x"
    and caught: "is_Exception x" and accepted: "x \<noteq> StopIteration"
    and pend: "futures s (future w) = Pending"
  shows "fst (remove_dispatched_listeners ev d s) =
           fst (remove_dispatched_listeners ev d (s\<lparr>dispatch_listeners := xs @ ys\<rparr>)) \<and>
         (\<forall>g. g \<noteq> future w \<longrightarrow>
            futures (snd (remove_dispatched_listeners ev d s)) g =
            futures (snd (remove_dispatched_listeners ev d (s\<lparr>dispatch_listeners := xs @ ys\<rparr>))) g) \<and>
         (fst (remove_dispatched_listeners ev d s) = None \<longrightarrow>
            futures (snd (remove_dispatched_listeners ev d s)) (future w) = Exception x \<and>
            w \<notin> set (dispatch_listeners (snd (remove_dispatched_listeners ev d s))) \<and>
            dispatch_listeners (snd (remove_dispatched_listeners ev d s)) =
            dispatch_listeners
              (snd (remove_dispatched_listeners ev d (s\<lparr>dispatch_listeners := xs @ ys\<rparr>))))"
proof -
  let ?t = "s\<lparr>dispatch_listeners := xs @ ys\<rparr>"
  have fresh: "future w \<notin> future ` set (xs @ ys)"
    using ok l by (auto simp: registry_ok_def)
  then have notin: "w \<notin> set (xs @ ys)" by auto
  have cmp: "fst (single_pass ev d (xs @ w # ys) (futures s)) =
         fst (single_pass ev d (xs @ ys) (futures s)) \<and>
         (\<forall>g. g \<noteq> future w \<longrightarrow>
            snd (snd (single_pass ev d (xs @ w # ys) (futures s))) g =
            snd (snd (single_pass ev d (xs @ ys) (futures s))) g) \<and>
         (fst (single_pass ev d (xs @ ys) (futures s)) = None \<longrightarrow>
            fst (snd (single_pass ev d (xs @ w # ys) (futures s))) =
            fst (snd (single_pass ev d (xs @ ys) (futures s))) \<and>
            snd (snd (single_pass ev d (xs @ w # ys) (futures s))) (future w) = Exception x)"
    using single_pass_without [of w ev d x "futures s" xs ys] ev x pend fresh accepted caught by blast
  have sub: "fst (single_pass ev d (xs @ ys) (futures s)) = None \<longrightarrow>
             set (fst (snd (single_pass ev d (xs @ ys) (futures s)))) \<subseteq> set (xs @ ys)"
    using single_pass_kept [of ev d "xs @ ys" "futures s"] by blast
  show ?thesis using cmp sub notin l
    by (auto simp: dispatch_fields)
qed


lemma registry_ok_reachable: "registry_ok (reg_run ws_init ops)"
proof -
  have "registry_ok s \<Longrightarrow> registry_ok (reg_run s ops)" for s :: "'a ws"
  proof (induction ops arbitrary: s)
    case Nil
    then show ?case by (simp add: reg_run_def)
  next
    case (Cons x ops)
    have "reg_run s (x # ops) = reg_run (reg_step s x) ops" by (simp add: reg_run_def)
    then show ?case using Cons.IH [OF registry_ok_step [OF Cons.prems]] by simp
  qed
  moreover have "registry_ok ws_init" by (simp add: registry_ok_def ws_init_def)
  ultimately show ?thesis .
qed

lemmas run_simps = wait_for_def ws_init_def remove_dispatched_listeners_def enumerate_eq_zip
      always_true_def raising_result_def raising_predicate_def wrap_result_def
      apply_result_def set_result_def set_exception_def Let_def reg_run_def cancel_def
      registry_ok_def

theorem C1_waiter_completed_once_witness:
  "registry_ok (ws_init :: json ws) \<and>
   wait_for ''E'' always_true (Some wrap_result) ws_init = (0, waiter_registered) \<and>
   list_all (unrelated ''E'' 0) [Op_dispatch ''F'' JNull] \<and>
   remove_dispatched_listeners ''E'' (JInt 7)
     (reg_run waiter_registered [Op_dispatch ''F'' JNull]) = (None, waiter_dispatched) \<and>
   futures waiter_dispatched 0 = Result (JArr [JInt 7]) \<and>
   dispatch_listeners waiter_dispatched = [] \<and>
   futures (reg_run waiter_dispatched [Op_dispatch ''E'' (JInt 8), Op_cancel 0]) 0 =
     Result (JArr [JInt 7])"
proof -
  note defs = run_simps waiter_registered_def waiter_dispatched_def
  have h1: "registry_ok (ws_init :: json ws)" by (simp add: run_simps)
  have h2: "wait_for ''E'' always_true (Some wrap_result) ws_init = (0, waiter_registered)"
    by (simp add: waiter_registered_def prod_eq_iff wait_for_fields ws_init_def)
  have h3: "\<And>x. always_true x = Inr True" by (simp add: always_true_def)
  have h4: "list_all (unrelated ''E'' 0) [Op_dispatch ''F'' (JNull :: json)]" by simp
  have "fst (remove_dispatched_listeners ''E'' (JInt 7)
     (reg_run waiter_registered [Op_dispatch ''F'' JNull])) = None"
    by (simp add: defs)
  then have h5: "remove_dispatched_listeners ''E'' (JInt 7)
     (reg_run waiter_registered [Op_dispatch ''F'' JNull]) = (None, waiter_dispatched)"
    by (simp add: waiter_dispatched_def prod_eq_iff)
  have l: "dispatch_listeners waiter_dispatched = []" by (simp add: defs)
  have a: "apply_result (Some wrap_result) (JInt 7) = Inr (JArr [JInt 7])"
    by (simp add: apply_result_def wrap_result_def)
  from C1_waiter_completed_once [OF h1 h2 h3 h4 h5,
      of "[Op_dispatch ''E'' (JInt 8), Op_cancel 0]" 0 waiter_dispatched "[]"]
  show ?thesis using h1 h2 h4 h5 l a by simp
qed

theorem C7_raising_predicate_witness:
  "registry_ok raising_first \<and>
   dispatch_listeners raising_first =
     [] @ \<lparr>predicate = raising_predicate, event = ''E'', result = None, future = 0\<rparr>
        # [\<lparr>predicate = always_true, event = ''E'', result = None, future = 1\<rparr>] \<and>
   raising_predicate JNull = Inl (Raised ''predicate'') \<and>
   is_Exception (Raised ''predicate'') \<and>
   Raised ''predicate'' \<noteq> StopIteration \<and>
   futures raising_first 0 = Pending \<and>
   fst (remove_dispatched_listeners ''E'' JNull raising_first) = None \<and>
   futures (snd (remove_dispatched_listeners ''E'' JNull raising_first)) 0 =
     Exception (Raised ''predicate'') \<and>
   futures (snd (remove_dispatched_listeners ''E'' JNull raising_first)) 1 = Result JNull \<and>
   dispatch_listeners (snd (remove_dispatched_listeners ''E'' JNull raising_first)) = []"
proof -
  let ?w = "\<lparr>predicate = raising_predicate, event = ''E'', result = None, future = 0\<rparr>
              :: json EventListener"
  let ?a = "\<lparr>predicate = always_true, event = ''E'', result = None, future = 1\<rparr>
              :: json EventListener"
  have h1: "registry_ok raising_first" by (simp add: run_simps raising_first_def)
  have h2: "dispatch_listeners raising_first = [] @ ?w # [?a]" by (simp add: run_simps raising_first_def)
  have h3: "event ?w = ''E''" by simp
  have h4: "predicate ?w JNull = Inl (Raised ''predicate'')" by (simp add: raising_predicate_def)
  have h5: "futures raising_first (future ?w) = Pending" by (simp add: run_simps raising_first_def)
  have h6: "Raised ''predicate'' \<noteq> StopIteration" by simp
  have h7: "is_Exception (Raised ''predicate'')" by simp
  have other: "remove_dispatched_listeners ''E'' JNull (raising_first\<lparr>dispatch_listeners := [] @ [?a]\<rparr>)
     = (None, raising_first\<lparr>dispatch_listeners := [],
                             futures := (futures raising_first)(1 := Result JNull)\<rparr>)"
    by (simp add: run_simps raising_first_def)
  from C7_raising_predicate [OF h1 h2 h3 h4 h7 h6 h5]
  show ?thesis using h1 h2 h4 h5 other by (simp add: run_simps raising_first_def)
qed

section \<open>Closing: classification of close codes and the heartbeat timeout\<close>



text \<open>
  Claim C4. At a turn of the keep-alive loop (the thread has an interval and its stop
  event is not set) with \<open>last_recv + heartbeat_timeout < now\<close>, that one turn calls \<^verbatim>\<open>close(4000)\<close> on the
  socket: \<^verbatim>\<open>_close_code\<close> is 4000, which \<^verbatim>\<open>_can_handle_close\<close> classifies as
  reconnectable; \<^verbatim>\<open>socket.close(code=4000)\<close> has been called (when it returns the
  socket is closed, when it raises the exception is ignored); the thread has set its own
  stop event and the socket has dropped its reference to it; no exception leaves the
  thread, and any later turn of the loop does nothing.
\<close>

theorem C4_heartbeat_timeout:
  assumes "keep_alive_thread s = Some h" "\<not> stop_ev h" "interval h = Some i"
    "last_recv h + heartbeat_timeout h < now"
  shows "fst (run_tick now outcome s) = None \<and>
         close_code (snd (run_tick now outcome s)) = Some 4000 \<and>
         effective_close_code (snd (run_tick now outcome s)) = Some 4000 \<and>
         can_handle_close (snd (run_tick now outcome s)) \<and>
         io (snd (run_tick now outcome s)) = io s @ [Socket_close 4000] \<and>
         (case outcome of Inl e \<Rightarrow> socket_closed (snd (run_tick now outcome s)) = socket_closed s
          | Inr c \<Rightarrow> socket_closed (snd (run_tick now outcome s))) \<and>
         keep_alive_thread (snd (run_tick now outcome s)) = Some (h\<lparr>stop_ev := True\<rparr>) \<and>
         \<not> keep_alive (snd (run_tick now outcome s)) \<and>
         run_tick later outcome' (snd (run_tick now outcome s)) =
           (None, snd (run_tick now outcome s))"
  using assms
  by (auto simp: run_tick_def close_def Let_def stop_def can_handle_close_def
      effective_close_code_def split: sum.splits)

theorem C4_heartbeat_timeout_witness:
  "keep_alive_thread stalled =
     Some \<lparr>interval = Some 5, stop_ev = False, last_ack = 10, last_send = 10,
           last_recv = 10, heartbeat_timeout = 6\<rparr> \<and>
   (10::real) + 6 < 17 \<and>
   close_code (snd (run_tick 17 (Inl RuntimeError) stalled)) = Some 4000 \<and>
   can_handle_close (snd (run_tick 17 (Inl RuntimeError) stalled)) \<and>
   keep_alive_thread (snd (run_tick 17 (Inl RuntimeError) stalled)) =
     Some \<lparr>interval = Some 5, stop_ev = True, last_ack = 10, last_send = 10,
           last_recv = 10, heartbeat_timeout = 6\<rparr>"
proof -
  let ?h = "\<lparr>interval = Some 5, stop_ev = False, last_ack = 10, last_send = 10,
             last_recv = 10, heartbeat_timeout = 6\<rparr>"
  have h1: "keep_alive_thread stalled = Some ?h" by (simp add: stalled_def ws_init_def)
  have h2: "\<not> stop_ev ?h" by simp
  have h3: "interval ?h = Some 5" by simp
  have h4: "last_recv ?h + heartbeat_timeout ?h < 17" by simp
  from C4_heartbeat_timeout [OF h1 h2 h3 h4, of "Inl RuntimeError"]
  show ?thesis using h1 by simp
qed

section \<open>Receiving frames\<close>


lemma handled_dispatch: "handled (snd (remove_dispatched_listeners ev d s)) = handled s"
  by (simp add: remove_dispatched_listeners_single_pass split: prod.splits option.splits)

lemma parsers_dispatch: "parsers (snd (remove_dispatched_listeners ev d s)) = parsers s"
  by (simp add: remove_dispatched_listeners_single_pass split: prod.splits option.splits)









section \<open>Sending\<close>

lemma send_gated:
  "gated False (io_since s (snd (send current wr data s))) \<and>
   (rate_limiter s = None \<longrightarrow> send current wr data s = (Some AttributeError, s)) \<and>
   (\<forall>rl. rate_limiter s = Some rl \<longrightarrow>
      io (snd (send current wr data s)) =
        io s @ [Rate_limited (fst (block current rl)), Dispatch ''socket_raw_send'' data,
                Send_str data] \<and>
      rate_limiter (snd (send current wr data s)) = Some (snd (block current rl)))"
  by (auto simp: send_def io_since_def split_beta split: option.splits)

lemma send_as_json_gated:
  "gated False (io_since s (snd (send_as_json to_json current wr data s)))"
proof -
  have "io (snd (send_as_json to_json current wr data s)) =
        io (snd (send current wr (to_json data) s))"
    by (auto simp: send_as_json_def split: prod.splits option.splits)
  then show ?thesis using send_gated [of s current wr "to_json data"]
    by (simp add: io_since_def)
qed

text \<open>
  Claim C8 at concrete calls. \<^verbatim>\<open>send\<close> calls \<^verbatim>\<open>rate_limiter.block()\<close> before it
  writes (lemmas \<open>send_gated\<close> and \<open>send_as_json_gated\<close>), but \<^verbatim>\<open>subscribe\<close> and
  \<^verbatim>\<open>unsubscribe\<close> of both sockets hand their payload to \<^verbatim>\<open>socket.send_json\<close>
  themselves. \<^verbatim>\<open>subscribe('xbtusdt')\<close> on a Bitmex socket (as its \<^verbatim>\<open>connect\<close> calls it)
  and \<^verbatim>\<open>subscribe('BTCUSDT')\<close> on a socket with the Binance limiter write one frame
  each with no call of the limiter before it, and the limiter's state is untouched; the
  same socket's \<^verbatim>\<open>send\<close> passes the limiter first.
\<close>

theorem C8_subscribe_bypasses_limiter:
  "io (snd (subscribe_bitmex None ''xbtusdt'' (ws_init :: json ws))) =
     [Send_json (JArr [JInt 0, JNull, JStr ''xbtusdt'',
                       JObj [(''op'', JStr ''subscribe''),
                             (''args'', JArr [JStr '':XBTUSDT''])]])] \<and>
   \<not> gated False (io_since ws_init (snd (subscribe_bitmex None ''xbtusdt'' (ws_init :: json ws)))) \<and>
   io (snd (subscribe_binance None ''BTCUSDT'' limited_socket)) =
     [Send_json (JObj [(''method'', JStr ''SUBSCRIBE''),
                       (''params'', JArr [JStr ''btcusdt@trade'', JStr ''btcusdt@depth'',
                                          JStr ''btcusdt@kline_1h'', JStr ''btcusdt@ticker'']),
                       (''id'', JInt 0)])] \<and>
   rate_limiter (snd (subscribe_binance None ''BTCUSDT'' limited_socket)) =
     rate_limiter limited_socket \<and>
   \<not> gated False (io_since limited_socket (snd (subscribe_binance None ''BTCUSDT'' limited_socket))) \<and>
   \<not> gated False (io_since limited_socket
        (snd (unsubscribe_binance None (Some ''ticker'') (Some ''btcusdt'') limited_socket))) \<and>
   io (snd (send 100 None ''ping'' limited_socket)) =
     [Rate_limited None, Dispatch ''socket_raw_send'' ''ping'', Send_str ''ping''] \<and>
   gated False (io_since limited_socket (snd (send 100 None ''ping'' limited_socket)))"
  by (simp add: subscribe_bitmex_def subscribe_binance_def unsubscribe_binance_def send_def
      ws_init_def limited_socket_def io_since_def upper_def upper_char_def lower_def lower_char_def
      GatewayRatelimiter_init_def block_def get_delay_def py_str_def Let_def)

section \<open>The Bitmex socket consumes the data of a frame\<close>

lemma pop_loop_all:
  "(\<forall>x\<in>set xs. func x = None) \<Longrightarrow>
   pop_loop func ev xs s = (None, [], s\<lparr>handled := handled s @ map (Pair ev) (rev xs)\<rparr>)"
proof (induction xs arbitrary: s rule: rev_induct)
  case Nil
  show ?case by (subst pop_loop.simps) simp
next
  case (snoc x xs)
  have fx: "func x = None" and rest: "\<forall>x\<in>set xs. func x = None" using snoc.prems by simp_all
  have "pop_loop func ev (xs @ [x]) s =
        pop_loop func ev xs (s\<lparr>handled := handled s @ [(ev, x)]\<rparr>)"
    by (subst pop_loop.simps) (simp add: call_parser_def fx)
  then show ?case using snoc.IH [OF rest, of "s\<lparr>handled := handled s @ [(ev, x)]\<rparr>"] by simp
qed


text \<open>
  Claim C10, as stated, at a concrete frame. The Bitmex socket has the repository's
  parser for \<^verbatim>\<open>KLINE_UPDATE\<close> registered and one waiter for that event. The frame's
  data has three entries; \<^verbatim>\<open>parse_kline_update\<close> reads \<^verbatim>\<open>data['E']\<close>, which only the
  last entry has. The loop pops the last entry (the parser returns), pops the second (the
  parser raises \<^verbatim>\<open>KeyError\<close>), and the exception leaves \<^verbatim>\<open>received_message\<close>: the
  parser was called for two of the three entries, the list is not empty, and no waiter
  dispatch is performed (the waiter's future is still pending).
\<close>

theorem C10_counterexample:
  "fst (received_message_bitmex loads_bitmex_sample 1 partial_kline_frame kline_socket) =
     Some (KeyError ''E'') \<and>
   handled (snd (received_message_bitmex loads_bitmex_sample 1 partial_kline_frame kline_socket)) =
     [(''KLINE_UPDATE'', JObj [(''E'', JInt 5)]), (''KLINE_UPDATE'', JObj [(''b'', JInt 2)])] \<and>
   futures (snd (received_message_bitmex loads_bitmex_sample 1 partial_kline_frame kline_socket)) 0 =
     Pending \<and>
   map future (dispatch_listeners
     (snd (received_message_bitmex loads_bitmex_sample 1 partial_kline_frame kline_socket))) = [0]"
proof -
  let ?s = "keep_alive_tick 1 kline_socket"
  let ?xs = "[JObj [(''a'', JInt 1)], JObj [(''b'', JInt 2)], JObj [(''E'', JInt 5)]]"
  have l: "pop_loop parse_kline_update ''KLINE_UPDATE'' ?xs ?s =
      (Some (KeyError ''E''), [JObj [(''a'', JInt 1)]],
       ?s\<lparr>handled := handled ?s @ [(''KLINE_UPDATE'', JObj [(''E'', JInt 5)]),
                                     (''KLINE_UPDATE'', JObj [(''b'', JInt 2)])]\<rparr>)"
    by (simp add: pop_loop.simps call_parser_def parse_kline_update_def)
  have p: "parsers ?s ''KLINE_UPDATE'' = Some parse_kline_update"
    by (simp add: keep_alive_tick_def kline_socket_def wait_for_def ws_init_def Let_def)
  have r: "received_message_bitmex loads_bitmex_sample 1 partial_kline_frame kline_socket =
      (Some (KeyError ''E''),
       ?s\<lparr>handled := handled ?s @ [(''KLINE_UPDATE'', JObj [(''E'', JInt 5)]),
                                     (''KLINE_UPDATE'', JObj [(''b'', JInt 2)])]\<rparr>)"
    using l p
    by (simp add: received_message_bitmex_def loads_bitmex_sample_def consume_def
        upper_def upper_char_def Let_def)
  show ?thesis
    by (simp add: r) (simp add: keep_alive_tick_def kline_socket_def wait_for_def ws_init_def Let_def)
qed

text \<open>
  Claim C10, amended. Take a frame that decodes to a list whose first element is not
  \<^verbatim>\<open>UNSUBSCRIBE\<close> and whose fourth is a dict that is no subscription reply and has
  string fields \<^verbatim>\<open>table\<close> and \<^verbatim>\<open>action\<close> and a list \<^verbatim>\<open>data\<close>; let a parser be
  registered for the event \<^verbatim>\<open>TABLE_ACTION\<close>, and let it return on every entry of the
  data. Then \<^verbatim>\<open>received_message\<close> calls the parser once per entry, last entry first,
  and what it does afterwards is exactly the waiter dispatch for that event with the
  empty list as its data.
\<close>

theorem C10_bitmex_consumes_data:
  assumes "loads raw = Inr (JArr (op # a # b # JObj kv # tail))"
    and "\<not> py_eq_int op 2"
    and "py_eq_int op 0 \<longrightarrow> map_of kv ''success'' = None"
    and "map_of kv ''table'' = Some (JStr table)"
    and "map_of kv ''action'' = Some (JStr action)"
    and "map_of kv ''data'' = Some (JArr xs)"
    and "parsers s (upper table @ ''_'' @ upper action) = Some func"
    and "\<forall>x\<in>set xs. func x = None"
  shows "received_message_bitmex loads pc raw s =
           remove_dispatched_listeners (upper table @ ''_'' @ upper action) (JArr [])
             ((keep_alive_tick pc s)
                \<lparr>handled := handled s @ map (Pair (upper table @ ''_'' @ upper action)) (rev xs)\<rparr>) \<and>
         handled (snd (received_message_bitmex loads pc raw s)) =
           handled s @ map (Pair (upper table @ ''_'' @ upper action)) (rev xs)"
proof -
  let ?ev = "upper table @ ''_'' @ upper action"
  let ?s1 = "keep_alive_tick pc s"
  have p: "parsers ?s1 ?ev = Some func" "handled ?s1 = handled s"
    using assms(7) by (simp_all add: keep_alive_tick_def)
  have c: "consume func ?ev (JArr xs) ?s1 =
      (None, JArr [], ?s1\<lparr>handled := handled s @ map (Pair ?ev) (rev xs)\<rparr>)"
    using pop_loop_all [OF assms(8), of ?ev ?s1] p(2) by (simp add: consume_def)
  have succ: "(if py_eq_int op 0 then py_in ''success'' (JObj kv) else Inr False) = Inr False"
    using assms(3) by simp
  have eq: "received_message_bitmex loads pc raw s =
      remove_dispatched_listeners ?ev (JArr [])
        (?s1\<lparr>handled := handled s @ map (Pair ?ev) (rev xs)\<rparr>)"
    using assms(1,2,4,5,6) succ p(1) c
    by (simp add: received_message_bitmex_def Let_def del: py_in.simps)
  show ?thesis using eq by (simp add: handled_dispatch)
qed


theorem C10_bitmex_consumes_data_witness:
  "loads_bitmex_sample full_kline_frame =
     Inr (JArr (JInt 0 # JNull # JNull #
                JObj [(''table'', JStr ''kline''), (''action'', JStr ''update''),
                      (''data'', JArr [JObj [(''E'', JInt 1)], JObj [(''E'', JInt 2)]])] # [])) \<and>
   \<not> py_eq_int (JInt 0) 2 \<and>
   parsers kline_socket (upper ''kline'' @ ''_'' @ upper ''update'') = Some parse_kline_update \<and>
   parse_kline_update (JObj [(''E'', JInt 1)]) = None \<and>
   parse_kline_update (JObj [(''E'', JInt 2)]) = None \<and>
   fst (received_message_bitmex loads_bitmex_sample 1 full_kline_frame kline_socket) = None \<and>
   handled (snd (received_message_bitmex loads_bitmex_sample 1 full_kline_frame kline_socket)) =
     [(''KLINE_UPDATE'', JObj [(''E'', JInt 2)]), (''KLINE_UPDATE'', JObj [(''E'', JInt 1)])] \<and>
   futures (snd (received_message_bitmex loads_bitmex_sample 1 full_kline_frame kline_socket)) 0 =
     Result (JArr []) \<and>
   dispatch_listeners
     (snd (received_message_bitmex loads_bitmex_sample 1 full_kline_frame kline_socket)) = []"
proof -
  let ?kv = "[(''table'', JStr ''kline''), (''action'', JStr ''update''),
              (''data'', JArr [JObj [(''E'', JInt 1)], JObj [(''E'', JInt 2)]])]"
  let ?xs = "[JObj [(''E'', JInt 1)], JObj [(''E'', JInt 2)]]"
  have u: "upper ''kline'' @ ''_'' @ upper ''update'' = ''KLINE_UPDATE''"
    by (simp add: upper_def upper_char_def)
  have h1: "loads_bitmex_sample full_kline_frame = Inr (JArr (JInt 0 # JNull # JNull # JObj ?kv # []))"
    by (simp add: loads_bitmex_sample_def full_kline_frame_def partial_kline_frame_def)
  have h2: "\<not> py_eq_int (JInt 0) 2" by simp
  have h3: "py_eq_int (JInt 0) 0 \<longrightarrow> map_of ?kv ''success'' = None" by simp
  have h4: "map_of ?kv ''table'' = Some (JStr ''kline'')" by simp
  have h5: "map_of ?kv ''action'' = Some (JStr ''update'')" by simp
  have h6: "map_of ?kv ''data'' = Some (JArr ?xs)" by simp
  have h7: "parsers kline_socket (upper ''kline'' @ ''_'' @ upper ''update'') = Some parse_kline_update"
    by (simp add: upper_def upper_char_def kline_socket_def wait_for_def ws_init_def Let_def)
  have h8: "\<forall>x\<in>set ?xs. parse_kline_update x = None" by (simp add: parse_kline_update_def)
  note inst = C10_bitmex_consumes_data [of loads_bitmex_sample full_kline_frame "JInt 0" JNull JNull
      ?kv "[]" "''kline''" "''update''" ?xs kline_socket parse_kline_update 1,
      OF h1 h2 h3 h4 h5 h6 h7 h8]
  have d: "remove_dispatched_listeners ''KLINE_UPDATE'' (JArr [])
             ((keep_alive_tick 1 kline_socket)
                \<lparr>handled := handled kline_socket @ map (Pair ''KLINE_UPDATE'') (rev ?xs)\<rparr>) =
      (None, kline_socket\<lparr>handled := [(''KLINE_UPDATE'', JObj [(''E'', JInt 2)]),
                                         (''KLINE_UPDATE'', JObj [(''E'', JInt 1)])],
                           futures := (futures kline_socket)(0 := Result (JArr [])),
                           dispatch_listeners := []\<rparr>)"
    by (simp add: run_simps keep_alive_tick_def kline_socket_def)
  show ?thesis using inst h1 h2 h7 h8 d by (simp add: upper_def upper_char_def)
qed

end
